theory Spec2Isabelle
  imports Complex_Main "HOL-Library.Sublist" "HOL-Library.AList"
begin

chapter \<open>Frontier Alpha: the ML engine and the colour migration script\<close>

section \<open>The ML engine (src/ml/main.py)\<close>

subsection \<open>Data\<close>

text \<open>
  A Python float as \<open>optimize\<close> sees it. The function never computes with a float: it
  reads \<open>risk_free_rate\<close> from the request, hands it to the library and copies the three
  numbers of the library's performance tuple into the response. So a float is a real
  number or one of the three special values, and no rounding is modelled.
\<close>

datatype pyfloat = Finite real | PosInf | NegInf | NaN

text \<open>
  \<^verbatim>\<open>
  class OptimizeRequest(BaseModel):
      symbols: List[str]
      returns: List[List[float]]
      objective: str = "max_sharpe"
      risk_free_rate: float = 0.05
  \<close>
\<close>

record OptimizeRequest =
  symbols :: "string list"
  returns :: "pyfloat list list"
  objective :: string
  risk_free_rate :: pyfloat


text \<open>The dictionary \<open>optimize\<close> returns; \<open>weights\<close> is the ordered dictionary of
  \<open>clean_weights\<close>, ticker to weight.\<close>

record OptimizeResponse =
  weights :: "(string \<times> pyfloat) list"
  expected_return :: pyfloat
  volatility :: pyfloat
  sharpe_ratio :: pyfloat

text \<open>
  The design's typed errors (spec, section 7), and \<open>Raised\<close> for a Python exception that
  comes out of a call into pandas or PyPortfolioOpt, with the name of its class. The source
  defines no exception class and has no \<open>raise\<close>: every failure of \<open>optimize\<close> is a
  \<open>Raised\<close> one.
\<close>

datatype error =
  InputValidationError | InsufficientDataError | InfeasibleError | SolverError
  | DegenerateResultError | Raised string

text \<open>
  pandas and PyPortfolioOpt are not part of the repository; the calls \<open>optimize\<close> makes
  into them are a parameter. Each call returns its value or the name of the exception it
  raises. \<open>'df\<close> is the transposed data frame, \<open>'mu\<close> and \<open>'cov\<close> the estimates, and
  \<open>'ef\<close> the state of the \<open>EfficientFrontier\<close> object, which the solver methods update and
  \<open>clean_weights\<close> and \<open>portfolio_performance\<close> read. \<open>max_sharpe\<close> takes the risk-free rate
  it is called with, \<open>None\<close> when the argument is left to the method's own default.
\<close>

record ('df, 'mu, 'cov, 'ef) library =
  DataFrame_T :: "pyfloat list list \<Rightarrow> string list \<Rightarrow> string + 'df"
  mean_historical_return :: "'df \<Rightarrow> string + 'mu"
  ledoit_wolf :: "'df \<Rightarrow> string + 'cov"
  EfficientFrontier :: "'mu \<Rightarrow> 'cov \<Rightarrow> string + 'ef"
  max_sharpe :: "'ef \<Rightarrow> pyfloat option \<Rightarrow> string + 'ef"
  min_volatility :: "'ef \<Rightarrow> string + 'ef"
  clean_weights :: "'ef \<Rightarrow> string + ((string \<times> pyfloat) list \<times> 'ef)"
  portfolio_performance :: "'ef \<Rightarrow> pyfloat \<Rightarrow> string + (pyfloat \<times> pyfloat \<times> pyfloat)"

subsection \<open>optimize\<close>

text \<open>A call into the library: its exception leaves \<open>optimize\<close> at once.\<close>

definition call :: "string + 'a \<Rightarrow> ('a \<Rightarrow> error + 'b) \<Rightarrow> error + 'b" where
  "call r k = (case r of Inl x \<Rightarrow> Inl (Raised x) | Inr v \<Rightarrow> k v)"

text \<open>
  \<^verbatim>\<open>
  df = pd.DataFrame(request.returns, index=request.symbols).T
  mu = expected_returns.mean_historical_return(df)
  S = risk_models.CovarianceShrinkage(df).ledoit_wolf()
  ef = EfficientFrontier(mu, S)
  if request.objective == "max_sharpe":
      weights = ef.max_sharpe(risk_free_rate=request.risk_free_rate)
  elif request.objective == "min_volatility":
      weights = ef.min_volatility()
  else:
      weights = ef.max_sharpe()
  cleaned = ef.clean_weights()
  perf = ef.portfolio_performance(risk_free_rate=request.risk_free_rate)
  return {"weights": cleaned, "expected_return": perf[0],
          "volatility": perf[1], "sharpe_ratio": perf[2]}
  \<close>
\<close>

definition optimize ::
  "('df, 'mu, 'cov, 'ef) library \<Rightarrow> 'z OptimizeRequest_scheme \<Rightarrow> error + OptimizeResponse" where
  "optimize L request =
     call (DataFrame_T L (returns request) (symbols request)) (\<lambda>df.
     call (mean_historical_return L df) (\<lambda>mu.
     call (ledoit_wolf L df) (\<lambda>S.
     call (EfficientFrontier L mu S) (\<lambda>ef.
     call (if objective request = ''max_sharpe''
             then max_sharpe L ef (Some (risk_free_rate request))
           else if objective request = ''min_volatility''
             then min_volatility L ef
           else max_sharpe L ef None) (\<lambda>ef1.
     call (clean_weights L ef1) (\<lambda>(cleaned, ef2).
     call (portfolio_performance L ef2 (risk_free_rate request)) (\<lambda>perf.
       Inr \<lparr>weights = cleaned,
            expected_return = fst perf,
            volatility = fst (snd perf),
            sharpe_ratio = snd (snd perf)\<rparr>)))))))"

subsection \<open>sentiment\<close>

record Sentiment =
  label :: string
  confidence :: real

text \<open>
  \<^verbatim>\<open>return [{"label": "neutral", "confidence": 0.5} for _ in texts]\<close>
\<close>

definition analyze_sentiment :: "string list \<Rightarrow> Sentiment list" where
  "analyze_sentiment texts = map (\<lambda>_. \<lparr>label = ''neutral'', confidence = 5 / 10\<rparr>) texts"

subsection \<open>Stand-in libraries\<close>

text \<open>
  To run \<open>optimize\<close> on a concrete request the library parameter needs a value. The
  first stand-in keeps a log of the solver calls in the frontier state and returns that log
  as the weights, so that a response shows which solver method ran and with which risk-free
  rate (a call of \<open>max_sharpe\<close> without the argument is logged under
  \<open>max_sharpe()\<close>). None of its calls raises. The performance is that of a risk-free-like
  holding: the expected return equals the rate it is evaluated with, the volatility is zero
  and the Sharpe ratio, zero divided by zero, is NaN.
\<close>

definition probe ::
  "(pyfloat list list \<times> string list, unit, unit, (string \<times> pyfloat) list) library" where
  "probe =
     \<lparr>DataFrame_T = (\<lambda>rows index. Inr (rows, index)),
      mean_historical_return = (\<lambda>df. Inr ()),
      ledoit_wolf = (\<lambda>df. Inr ()),
      EfficientFrontier = (\<lambda>mu S. Inr []),
      max_sharpe = (\<lambda>ef rf. Inr (ef @ [case rf of None \<Rightarrow> (''max_sharpe()'', Finite 0)
                                           | Some r \<Rightarrow> (''max_sharpe'', r)])),
      min_volatility = (\<lambda>ef. Inr (ef @ [(''min_volatility'', Finite 0)])),
      clean_weights = (\<lambda>ef. Inr (ef, ef)),
      portfolio_performance = (\<lambda>ef rf. Inr (rf, Finite 0, NaN))\<rparr>"

text \<open>
  The second stand-in allocates: the frame has one column for each index label, both
  solver methods give every column the same weight, and the cleaner rounds each weight to
  five decimals and does nothing else. None of its calls raises, and the performance is
  that of the first stand-in.
\<close>

definition round5 :: "real \<Rightarrow> real" where
  "round5 x = of_int (round (x * 10 ^ 5)) / 10 ^ 5"

definition equal_weight :: "(string list, string list, unit, (string \<times> real) list) library" where
  "equal_weight =
     \<lparr>DataFrame_T = (\<lambda>rows index. Inr index),
      mean_historical_return = (\<lambda>df. Inr df),
      ledoit_wolf = (\<lambda>df. Inr ()),
      EfficientFrontier = (\<lambda>mu S. Inr (map (\<lambda>s. (s, 0)) mu)),
      max_sharpe = (\<lambda>ef rf. Inr (map (\<lambda>(s, w). (s, 1 / real (length ef))) ef)),
      min_volatility = (\<lambda>ef. Inr (map (\<lambda>(s, w). (s, 1 / real (length ef))) ef)),
      clean_weights = (\<lambda>ef. Inr (map (\<lambda>(s, w). (s, Finite (round5 w))) ef, ef)),
      portfolio_performance = (\<lambda>ef rf. Inr (rf, Finite 0, NaN))\<rparr>"

subsection \<open>Notions for the properties of optimize\<close>

text \<open>A library none of whose calls raises, whatever the arguments.\<close>

definition never_raises :: "('df, 'mu, 'cov, 'ef) library \<Rightarrow> bool" where
  "never_raises L \<longleftrightarrow>
     (\<forall>rows index. \<not> isl (DataFrame_T L rows index)) \<and>
     (\<forall>df. \<not> isl (mean_historical_return L df)) \<and>
     (\<forall>df. \<not> isl (ledoit_wolf L df)) \<and>
     (\<forall>mu S. \<not> isl (EfficientFrontier L mu S)) \<and>
     (\<forall>ef rf. \<not> isl (max_sharpe L ef rf)) \<and>
     (\<forall>ef. \<not> isl (min_volatility L ef)) \<and>
     (\<forall>ef. \<not> isl (clean_weights L ef)) \<and>
     (\<forall>ef rf. \<not> isl (portfolio_performance L ef rf))"

text \<open>The sum of the weights of a mapping, a weight that is no number counting as zero.\<close>

definition weight_sum :: "(string \<times> pyfloat) list \<Rightarrow> real" where
  "weight_sum ws = sum_list (map (\<lambda>(s, x). case x of Finite v \<Rightarrow> v | _ \<Rightarrow> 0) ws)"

section \<open>The weight cleaner of the design (spec, section 4.3)\<close>

text \<open>
  \<open>optimize\<close> obtains the cleaned weights from \<open>ef.clean_weights()\<close>, a method of
  PyPortfolioOpt whose code is not in the repository. The idempotence of cleaning is
  settled against the cleaner that the specification describes, on exact numbers.
\<close>




section \<open>The colour migration script (src/scripts/migrate-colors.py)\<close>

subsection \<open>Text and the Python runtime\<close>

text \<open>
  A Python string is a list of code points. The script names ASCII characters only, so a
  code point is either an ASCII-range character of HOL or any other one, kept by its number.
\<close>

datatype pychar = Chr char | Wide nat

type_synonym pystr = "pychar list"

definition lit :: "string \<Rightarrow> pystr" where
  "lit s = map Chr s"

text \<open>
  What the script takes from the runtime, as a parameter: which code points outside ASCII
  are decimal digits (\<^verbatim>\<open>\d\<close> of a \<open>str\<close> pattern matches every character of the Unicode
  category Nd, and \<open>int\<close> reads them), the limit on the number of digits \<open>int\<close> accepts
  (\<open>sys.get_int_max_str_digits()\<close>, zero for no limit), and the text an f-string writes for
  the float \<open>n / 100\<close>, where the division raises \<open>OverflowError\<close> when the integer is
  too large for a float.
\<close>

datatype exn = TypeError | ValueError | OverflowError

record python =
  unicode_Nd :: "nat \<Rightarrow> bool"
  unicode_digit :: "nat \<Rightarrow> nat"
  int_max_str_digits :: nat
  div100_repr :: "nat \<Rightarrow> string option"

fun is_digit :: "python \<Rightarrow> pychar \<Rightarrow> bool" where
  "is_digit py (Chr c) = (c \<in> set ''0123456789'')"
| "is_digit py (Wide n) = unicode_Nd py n"

fun digit_value :: "python \<Rightarrow> pychar \<Rightarrow> nat" where
  "digit_value py (Chr c) = of_char c - 48"
| "digit_value py (Wide n) = unicode_digit py n"

text \<open>
  \<open>int(g)\<close> for a group \<open>g\<close> of a match: \<open>TypeError\<close> on \<open>None\<close>, \<open>ValueError\<close> on a text
  that is not a run of digits or that is longer than the limit.
\<close>

definition py_int :: "python \<Rightarrow> pystr option \<Rightarrow> exn + nat" where
  "py_int py g =
     (case g of
        None \<Rightarrow> Inl TypeError
      | Some ds \<Rightarrow>
          if ds = [] \<or> \<not> list_all (is_digit py) ds then Inl ValueError
          else if int_max_str_digits py \<noteq> 0 \<and> int_max_str_digits py < length ds then Inl ValueError
          else Inr (foldl (\<lambda>a d. 10 * a + digit_value py d) 0 ds))"

text \<open>The text of \<open>n / 100\<close> in an f-string.\<close>

definition py_div100 :: "python \<Rightarrow> nat \<Rightarrow> exn + pystr" where
  "py_div100 py n = (case div100_repr py n of None \<Rightarrow> Inl OverflowError | Some s \<Rightarrow> Inr (lit s))"

definition bind :: "exn + 'a \<Rightarrow> ('a \<Rightarrow> exn + 'b) \<Rightarrow> exn + 'b" where
  "bind r k = (case r of Inl e \<Rightarrow> Inl e | Inr v \<Rightarrow> k v)"

subsection \<open>Regular expressions\<close>

text \<open>
  The fragment of \<open>re\<close> that the patterns of the script are written in: a literal, an
  alternation of literals, \<^verbatim>\<open>\d+\<close>, concatenation, \<open>?\<close>, a numbered group and the negative
  lookahead for one character.
\<close>

datatype rx =
  Lit pystr | OneOf "pystr list" | Digits1 | Cat rx rx | Opt rx | Grp nat rx | NotAheadChr pychar

type_synonym caps = "nat \<Rightarrow> pystr option"

text \<open>The rests of the text after a run of digits at its start, the longest run first.\<close>

fun digit_runs :: "python \<Rightarrow> pystr \<Rightarrow> pystr list" where
  "digit_runs py [] = []"
| "digit_runs py (x # xs) = (if is_digit py x then digit_runs py xs @ [xs] else [])"

text \<open>
  The backtracking matcher: all the ways a pattern matches at the start of a text, each
  with the groups it has set and the rest of the text, in the order in which \<open>re\<close> tries
  them (the alternatives of an alternation from left to right, the greedy choice first).
  The match \<open>re\<close> reports is the first of the list.
\<close>

fun rx_match :: "python \<Rightarrow> rx \<Rightarrow> caps \<Rightarrow> pystr \<Rightarrow> (caps \<times> pystr) list" where
  "rx_match py (Lit l) c s = (if prefix l s then [(c, drop (length l) s)] else [])"
| "rx_match py (OneOf ls) c s = map (\<lambda>l. (c, drop (length l) s)) (filter (\<lambda>l. prefix l s) ls)"
| "rx_match py Digits1 c s = map (Pair c) (digit_runs py s)"
| "rx_match py (Cat a b) c s = concat (map (\<lambda>(c1, s1). rx_match py b c1 s1) (rx_match py a c s))"
| "rx_match py (Opt a) c s = rx_match py a c s @ [(c, s)]"
| "rx_match py (Grp i a) c s =
     map (\<lambda>(c1, s1). (c1(i \<mapsto> take (length s - length s1) s), s1)) (rx_match py a c s)"
| "rx_match py (NotAheadChr x) c s = (if prefix [x] s then [] else [(c, s)])"

fun cat :: "rx list \<Rightarrow> rx" where
  "cat [] = Lit []"
| "cat [r] = r"
| "cat (r # rs) = Cat r (cat rs)"

text \<open>A match object: the matched text and the groups.\<close>

record match =
  group0 :: pystr
  groups :: caps

definition group :: "match \<Rightarrow> nat \<Rightarrow> pystr option" where
  "group m i = (if i = 0 then Some (group0 m) else groups m i)"

text \<open>
  \<open>re.sub(pattern, repl, content)\<close> with a function \<open>repl\<close>: the text is scanned from the
  left; at a position where the pattern matches, the replacement of the first match is
  written and the scan goes on behind the match; elsewhere the character is copied. An
  exception of \<open>repl\<close> ends the call.
\<close>

function py_sub :: "python \<Rightarrow> rx \<Rightarrow> (match \<Rightarrow> exn + pystr) \<Rightarrow> pystr \<Rightarrow> exn + pystr" where
  "py_sub py r repl s =
     (case rx_match py r Map.empty s of
        [] \<Rightarrow> (case s of [] \<Rightarrow> Inr [] | x # xs \<Rightarrow> map_sum id ((#) x) (py_sub py r repl xs))
      | (c, s1) # _ \<Rightarrow>
          (case repl \<lparr>group0 = take (length s - length s1) s, groups = c\<rparr> of
             Inl e \<Rightarrow> Inl e
           | Inr out \<Rightarrow>
               if length s1 < length s then map_sum id ((@) out) (py_sub py r repl s1)
               else (case s of [] \<Rightarrow> Inr out
                     | x # xs \<Rightarrow> map_sum id (\<lambda>t. out @ x # t) (py_sub py r repl xs))))"
  by pat_completeness auto
termination
  by (relation "measure (\<lambda>(py, r, repl, s). length s)") auto

text \<open>\<open>s.replace(old, new)\<close>: the occurrences of \<open>old\<close> from the left, without overlap.\<close>

function py_replace :: "pystr \<Rightarrow> pystr \<Rightarrow> pystr \<Rightarrow> pystr" where
  "py_replace old new s =
     (if old = [] then new @ concat (map (\<lambda>x. x # new) s)
      else if prefix old s then new @ py_replace old new (drop (length old) s)
      else (case s of [] \<Rightarrow> [] | x # xs \<Rightarrow> x # py_replace old new xs))"
  by pat_completeness auto
termination
  by (relation "measure (\<lambda>(old, new, s). length s)") (auto simp: prefix_def)

subsection \<open>The tables\<close>

text \<open>
  The two dictionaries, in the order in which the script writes their entries, and the
  alternations built from their keys: \<open>'|'.join(sorted(keys, key=len, reverse=True))\<close>,
  a stable sort by decreasing length.
\<close>

definition COLOR_SEMANTIC :: "(string \<times> string) list" where
  "COLOR_SEMANTIC =
     [(''green'', ''positive''), (''emerald'', ''positive''), (''teal'', ''positive''),
      (''red'', ''negative''), (''rose'', ''negative''),
      (''blue'', ''info''), (''sky'', ''info''), (''cyan'', ''info''),
      (''amber'', ''warning''), (''yellow'', ''warning''), (''orange'', ''warning''),
      (''purple'', ''accent''), (''indigo'', ''accent''), (''violet'', ''accent''),
      (''fuchsia'', ''accent''), (''pink'', ''accent'')]"

definition COLOR_RGBA :: "(string \<times> string) list" where
  "COLOR_RGBA =
     [(''green'', ''16, 185, 129''), (''emerald'', ''16, 185, 129''), (''teal'', ''20, 184, 166''),
      (''red'', ''239, 68, 68''), (''rose'', ''244, 63, 94''),
      (''blue'', ''59, 130, 246''), (''sky'', ''14, 165, 233''), (''cyan'', ''6, 182, 212''),
      (''amber'', ''245, 158, 11''), (''yellow'', ''234, 179, 8''), (''orange'', ''249, 115, 22''),
      (''purple'', ''123, 44, 255''), (''indigo'', ''99, 102, 241''), (''violet'', ''139, 92, 246''),
      (''fuchsia'', ''217, 70, 239''), (''pink'', ''236, 72, 153''),
      (''gray'', ''107, 114, 128''), (''slate'', ''100, 116, 139'')]"

definition sorted_by_len_reverse :: "string list \<Rightarrow> string list" where
  "sorted_by_len_reverse keys = sort_key (\<lambda>k. - int (length k)) keys"

definition ALL_COLORS :: "string list" where
  "ALL_COLORS = sorted_by_len_reverse (map fst COLOR_SEMANTIC)"

definition ALL_COLORS_PLUS_GRAY :: "string list" where
  "ALL_COLORS_PLUS_GRAY =
     sorted_by_len_reverse
       (map fst (AList.update ''slate'' ''text-muted''
                   (AList.update ''gray'' ''text-muted'' COLOR_SEMANTIC)))"

text \<open>\<open>d.get(k)\<close> for a group \<open>k\<close> of a match.\<close>

definition dict_get :: "(string \<times> string) list \<Rightarrow> pystr option \<Rightarrow> pystr option" where
  "dict_get d k =
     (case k of None \<Rightarrow> None
      | Some key \<Rightarrow> map_option (lit \<circ> snd) (find (\<lambda>(k', v). lit k' = key) d))"

definition get_semantic :: "pystr option \<Rightarrow> pystr" where
  "get_semantic color = (case dict_get COLOR_SEMANTIC color of None \<Rightarrow> lit ''info'' | Some v \<Rightarrow> v)"

definition colors_rx :: rx where
  "colors_rx = OneOf (map lit ALL_COLORS_PLUS_GRAY)"

text \<open>\<open>g or ''\<close> and \<open>x in names\<close> for a group of a match.\<close>

definition or_empty :: "pystr option \<Rightarrow> pystr" where
  "or_empty g = (case g of None \<Rightarrow> [] | Some p \<Rightarrow> p)"

definition is_in :: "pystr option \<Rightarrow> string list \<Rightarrow> bool" where
  "is_in x names = (case x of None \<Rightarrow> False | Some v \<Rightarrow> v \<in> set (map lit names))"

subsection \<open>The rewriting steps\<close>

text \<open>
  The three helpers for a colour with an opacity. Each computes the opacity before it
  looks the colour up, and returns the match unchanged when the lookup gives nothing
  (\<open>if rgba: ... return m.group(0)\<close>).
\<close>

definition replace_bg_opacity :: "python \<Rightarrow> match \<Rightarrow> exn + pystr" where
  "replace_bg_opacity py m =
     (let color = group m 1 in
      case py_int py (group m 3) of Inl e \<Rightarrow> Inl e | Inr n \<Rightarrow>
      case py_div100 py n of Inl e \<Rightarrow> Inl e | Inr opacity \<Rightarrow>
      case dict_get COLOR_RGBA color of
        Some rgba \<Rightarrow>
          if rgba \<noteq> [] then Inr (lit ''bg-[rgba('' @ rgba @ lit '','' @ opacity @ lit '')]'')
          else Inr (group0 m)
      | None \<Rightarrow> Inr (group0 m))"

definition replace_border_opacity :: "python \<Rightarrow> match \<Rightarrow> exn + pystr" where
  "replace_border_opacity py m =
     (let color = group m 1 in
      case py_int py (group m 3) of Inl e \<Rightarrow> Inl e | Inr n \<Rightarrow>
      case py_div100 py n of Inl e \<Rightarrow> Inl e | Inr opacity \<Rightarrow>
      case dict_get COLOR_RGBA color of
        Some rgba \<Rightarrow>
          if rgba \<noteq> [] then Inr (lit ''border-[rgba('' @ rgba @ lit '','' @ opacity @ lit '')]'')
          else Inr (group0 m)
      | None \<Rightarrow> Inr (group0 m))"

definition replace_hover_bg_opacity :: "python \<Rightarrow> match \<Rightarrow> exn + pystr" where
  "replace_hover_bg_opacity py m =
     (let color = group m 1 in
      case py_int py (group m 3) of Inl e \<Rightarrow> Inl e | Inr n \<Rightarrow>
      case py_div100 py n of Inl e \<Rightarrow> Inl e | Inr opacity \<Rightarrow>
      case dict_get COLOR_RGBA color of
        Some rgba \<Rightarrow>
          if rgba \<noteq> [] then Inr (lit ''hover:bg-[rgba('' @ rgba @ lit '','' @ opacity @ lit '')]'')
          else Inr (group0 m)
      | None \<Rightarrow> Inr (group0 m))"

text \<open>
  The helpers for a solid colour. \<open>replace_text\<close> reads the shade of a gray only,
  \<open>replace_bg_solid\<close> reads it for every colour, the other two never read it.
\<close>

definition replace_text :: "python \<Rightarrow> match \<Rightarrow> exn + pystr" where
  "replace_text py m =
     (let pre = or_empty (group m 1); color = group m 2 in
      if is_in color [''gray'', ''slate''] then
        (case py_int py (group m 3) of Inl e \<Rightarrow> Inl e | Inr shade \<Rightarrow>
           if shade \<ge> 800 then Inr (pre @ lit ''text-[var(--color-text)]'')
           else if shade \<ge> 600 then Inr (pre @ lit ''text-[var(--color-text-secondary)]'')
           else Inr (pre @ lit ''text-[var(--color-text-muted)]''))
      else Inr (pre @ lit ''text-[var(--color-'' @ get_semantic color @ lit '')]''))"

definition replace_bg_solid :: "python \<Rightarrow> match \<Rightarrow> exn + pystr" where
  "replace_bg_solid py m =
     (let pre = or_empty (group m 1); color = group m 2 in
      case py_int py (group m 3) of Inl e \<Rightarrow> Inl e | Inr shade \<Rightarrow>
      if is_in color [''gray'', ''slate''] then
        (if shade \<le> 100 then Inr (pre @ lit ''bg-[var(--color-bg)]'')
         else if shade \<le> 300 then Inr (pre @ lit ''bg-[var(--color-bg-secondary)]'')
         else Inr (pre @ lit ''bg-[var(--color-bg-tertiary)]''))
      else Inr (pre @ lit ''bg-[var(--color-'' @ get_semantic color @ lit '')]''))"

definition replace_border :: "python \<Rightarrow> match \<Rightarrow> exn + pystr" where
  "replace_border py m =
     (let color = group m 1 in
      if is_in color [''gray'', ''slate''] then Inr (lit ''border-[var(--color-border)]'')
      else Inr (lit ''border-[var(--color-'' @ get_semantic color @ lit '')]''))"

definition replace_ring :: "python \<Rightarrow> match \<Rightarrow> exn + pystr" where
  "replace_ring py m =
     (let pre = or_empty (group m 1); color = group m 2;
          sem = (if is_in color (map fst COLOR_SEMANTIC) then get_semantic color else lit ''accent'')
      in Inr (pre @ lit ''ring-[var(--color-'' @ sem @ lit '')]''))"

text \<open>
  The patterns. \<^verbatim>\<open>((?:hover:|dark:|focus:)?)?\<close> is an optional group 1 around an optional
  alternation.
\<close>

definition prefix_rx :: "string list \<Rightarrow> rx" where
  "prefix_rx ps = Opt (Grp 1 (Opt (OneOf (map lit ps))))"

definition bg_opacity_rx :: rx where
  "bg_opacity_rx = cat [Lit (lit ''bg-''), Grp 1 colors_rx, Lit (lit ''-''), Grp 2 Digits1,
                        Lit (lit ''/''), Grp 3 Digits1]"

definition border_opacity_rx :: rx where
  "border_opacity_rx = cat [Lit (lit ''border-''), Grp 1 colors_rx, Lit (lit ''-''), Grp 2 Digits1,
                            Lit (lit ''/''), Grp 3 Digits1]"

definition hover_bg_opacity_rx :: rx where
  "hover_bg_opacity_rx = cat [Lit (lit ''hover:bg-''), Grp 1 colors_rx, Lit (lit ''-''), Grp 2 Digits1,
                              Lit (lit ''/''), Grp 3 Digits1]"

definition text_rx :: rx where
  "text_rx = cat [prefix_rx [''hover:'', ''dark:'', ''focus:''], Lit (lit ''text-''),
                  Grp 2 colors_rx, Lit (lit ''-''), Grp 3 Digits1]"

definition bg_solid_rx :: rx where
  "bg_solid_rx = cat [prefix_rx [''hover:'', ''dark:'', ''active:'', ''focus:''], Lit (lit ''bg-''),
                      Grp 2 colors_rx, Lit (lit ''-''), Grp 3 Digits1, NotAheadChr (Chr CHR ''/'')]"

definition border_rx :: rx where
  "border_rx = cat [Lit (lit ''border-''), Grp 1 colors_rx, Lit (lit ''-''), Grp 2 Digits1,
                    NotAheadChr (Chr CHR ''/'')]"

definition ring_rx :: rx where
  "ring_rx = cat [prefix_rx [''focus:''], Lit (lit ''ring-''), Grp 2 colors_rx, Lit (lit ''-''),
                  Grp 3 Digits1]"

text \<open>The hex colours, replaced one after the other in the order of the dictionary.\<close>

definition hex_map :: "(string \<times> string) list" where
  "hex_map =
     [(''#e5e7eb'', ''var(--color-border)''),
      (''#d1d5db'', ''var(--color-border)''),
      (''#9ca3af'', ''var(--color-text-muted)''),
      (''#6b7280'', ''var(--color-text-muted)''),
      (''#4b5563'', ''var(--color-text-secondary)''),
      (''#374151'', ''var(--color-text)'')]"

definition replace_hex :: "pystr \<Rightarrow> pystr" where
  "replace_hex content =
     foldl (\<lambda>c (hex_val, css_var). py_replace (lit hex_val) (lit css_var) c) content hex_map"

subsection \<open>migrate_content\<close>

definition migrate_content :: "python \<Rightarrow> pystr \<Rightarrow> exn + pystr" where
  "migrate_content py content =
     bind (py_sub py bg_opacity_rx (replace_bg_opacity py) content) (\<lambda>content.
     bind (py_sub py border_opacity_rx (replace_border_opacity py) content) (\<lambda>content.
     bind (py_sub py hover_bg_opacity_rx (replace_hover_bg_opacity py) content) (\<lambda>content.
     bind (py_sub py text_rx (replace_text py) content) (\<lambda>content.
     bind (py_sub py bg_solid_rx (replace_bg_solid py) content) (\<lambda>content.
     bind (py_sub py border_rx (replace_border py) content) (\<lambda>content.
     bind (py_sub py ring_rx (replace_ring py) content) (\<lambda>content.
     Inr (replace_hex content))))))))"

text \<open>
  A runtime to run the model on examples: no digits outside ASCII, the limit of 4300
  digits that CPython starts with, and the text of \<open>n / 100\<close> for three values of \<open>n\<close>.
\<close>

definition example_python :: python where
  "example_python = \<lparr>unicode_Nd = (\<lambda>n. False), unicode_digit = (\<lambda>n. 0), int_max_str_digits = 4300,
     div100_repr = (\<lambda>n. if n = 50 then Some ''0.5'' else if n = 100 then Some ''1.0''
                         else if n = 5 then Some ''0.05'' else None)\<rparr>"

section \<open>Notions for the analysis of the migration\<close>

text \<open>The common shape of the three helpers for a colour with an opacity.\<close>

definition opacity_rewrite :: "python \<Rightarrow> string \<Rightarrow> match \<Rightarrow> exn + pystr" where
  "opacity_rewrite py head m =
     (let color = group m 1 in
      case py_int py (group m 3) of Inl e \<Rightarrow> Inl e | Inr n \<Rightarrow>
      case py_div100 py n of Inl e \<Rightarrow> Inl e | Inr opacity \<Rightarrow>
      case dict_get COLOR_RGBA color of
        Some rgba \<Rightarrow>
          if rgba \<noteq> [] then Inr (lit head @ rgba @ lit '','' @ opacity @ lit '')]'')
          else Inr (group0 m)
      | None \<Rightarrow> Inr (group0 m))"

text \<open>The characters a pattern names, the groups it sets, the characters it looks ahead for.\<close>

fun alpha :: "rx \<Rightarrow> pychar set" where
  "alpha (Lit l) = set l"
| "alpha (OneOf ls) = (\<Union>l\<in>set ls. set l)"
| "alpha Digits1 = {}"
| "alpha (Cat a b) = alpha a \<union> alpha b"
| "alpha (Opt a) = alpha a"
| "alpha (Grp i a) = alpha a"
| "alpha (NotAheadChr x) = {}"

fun ahead :: "rx \<Rightarrow> pychar set" where
  "ahead (Cat a b) = ahead a \<union> ahead b"
| "ahead (Opt a) = ahead a"
| "ahead (Grp i a) = ahead a"
| "ahead (NotAheadChr x) = {x}"
| "ahead r = {}"

fun groups_of :: "rx \<Rightarrow> nat set" where
  "groups_of (Cat a b) = groups_of a \<union> groups_of b"
| "groups_of (Opt a) = groups_of a"
| "groups_of (Grp i a) = insert i (groups_of a)"
| "groups_of r = {}"

text \<open>A pattern that never consumes, and one whose every match ends in a digit.\<close>

fun zero_width :: "rx \<Rightarrow> bool" where
  "zero_width (Lit l) = (l = [])"
| "zero_width (OneOf ls) = (\<forall>l\<in>set ls. l = [])"
| "zero_width Digits1 = False"
| "zero_width (Cat a b) = (zero_width a \<and> zero_width b)"
| "zero_width (Opt a) = zero_width a"
| "zero_width (Grp i a) = zero_width a"
| "zero_width (NotAheadChr x) = True"

fun ends_digit :: "rx \<Rightarrow> bool" where
  "ends_digit Digits1 = True"
| "ends_digit (Cat a b) = (ends_digit b \<or> (ends_digit a \<and> zero_width b))"
| "ends_digit (Grp i a) = ends_digit a"
| "ends_digit r = False"

text \<open>
  A helper \<open>repl\<close> never takes its fallback on a match of the pattern \<open>r\<close>: whatever
  the pattern matches, group 1 is a colour of the alternation with a nonempty entry in
  \<open>COLOR_RGBA\<close>, group 3 is a run of digits, and the helper either raises in \<open>int\<close> or in
  the division, or returns the rgba form that starts with \<open>head\<close>.
\<close>

definition covered :: "python \<Rightarrow> rx \<Rightarrow> (match \<Rightarrow> exn + pystr) \<Rightarrow> string \<Rightarrow> bool" where
  "covered py r repl head \<longleftrightarrow>
     (\<forall>s c s1. (c, s1) \<in> set (rx_match py r Map.empty s) \<longrightarrow>
        (\<exists>color\<in>set ALL_COLORS_PLUS_GRAY. \<exists>rgba ds.
           c 1 = Some (lit color) \<and> dict_get COLOR_RGBA (c 1) = Some rgba \<and> rgba \<noteq> [] \<and>
           c 3 = Some ds \<and> ds \<noteq> [] \<and> list_all (is_digit py) ds \<and>
           repl \<lparr>group0 = take (length s - length s1) s, groups = c\<rparr>
             = bind (py_int py (c 3)) (\<lambda>n. bind (py_div100 py n) (\<lambda>opacity.
                 Inr (lit head @ rgba @ lit '','' @ opacity @ lit '')]'')))))"

text \<open>A pattern that matches the empty text, and the characters a match can start with.\<close>

fun can_be_empty :: "rx \<Rightarrow> bool" where
  "can_be_empty (Lit l) = (l = [])"
| "can_be_empty (OneOf ls) = ([] \<in> set ls)"
| "can_be_empty Digits1 = False"
| "can_be_empty (Cat a b) = (can_be_empty a \<and> can_be_empty b)"
| "can_be_empty (Opt a) = True"
| "can_be_empty (Grp i a) = can_be_empty a"
| "can_be_empty (NotAheadChr x) = True"

fun first_ok :: "python \<Rightarrow> rx \<Rightarrow> pychar \<Rightarrow> bool" where
  "first_ok py (Lit l) x = (l \<noteq> [] \<and> hd l = x)"
| "first_ok py (OneOf ls) x = (\<exists>l\<in>set ls. l \<noteq> [] \<and> hd l = x)"
| "first_ok py Digits1 x = is_digit py x"
| "first_ok py (Cat a b) x = (first_ok py a x \<or> (can_be_empty a \<and> first_ok py b x))"
| "first_ok py (Opt a) x = first_ok py a x"
| "first_ok py (Grp i a) x = first_ok py a x"
| "first_ok py (NotAheadChr y) x = False"

text \<open>Word characters: what the patterns of the script name, beside digits.\<close>

fun wordc :: "pychar \<Rightarrow> bool" where
  "wordc (Chr c) = (c \<in> set ''abcdefghijklmnopqrstuvwxyz-:/'')"
| "wordc (Wide n) = False"

text \<open>The characters a match of a pattern of the script can start with.\<close>

fun leader :: "pychar \<Rightarrow> bool" where
  "leader (Chr c) = (c \<in> set ''hdfabtr'')"
| "leader (Wide n) = False"

text \<open>A character no match can run over.\<close>

definition stops :: "python \<Rightarrow> pychar \<Rightarrow> bool" where
  "stops py x \<longleftrightarrow> \<not> wordc x \<and> \<not> is_digit py x"

text \<open>
  What the analysis uses of a pattern: every match ends in a digit, the characters named
  are word characters, the only lookahead is for a slash, and a match starts with a leader.
\<close>

definition tame :: "python \<Rightarrow> rx \<Rightarrow> bool" where
  "tame py r \<longleftrightarrow>
     ends_digit r \<and> (\<forall>x\<in>alpha r. wordc x) \<and> ahead r \<subseteq> {Chr CHR ''/''}
     \<and> (\<forall>x. first_ok py r x \<longrightarrow> leader x)"

text \<open>The pattern matches at the start of the text; it matches nowhere in the text.\<close>

definition hit :: "python \<Rightarrow> rx \<Rightarrow> pystr \<Rightarrow> bool" where
  "hit py r s \<longleftrightarrow> rx_match py r Map.empty s \<noteq> []"

definition slash :: pychar where
  "slash = Chr CHR ''/''"

text \<open>The shape of every text the script writes: some characters without a digit, then a
  stop character, then characters none of which can start a match.\<close>

definition safe_out :: "python \<Rightarrow> pystr \<Rightarrow> bool" where
  "safe_out py out \<longleftrightarrow>
     (\<exists>A x B. out = A @ x # B \<and> (\<forall>y\<in>set A. \<not> is_digit py y) \<and> stops py x
        \<and> (\<forall>y\<in>set B. \<not> leader y)) \<and> hd out \<noteq> slash"

definition free :: "python \<Rightarrow> rx \<Rightarrow> pystr \<Rightarrow> bool" where
  "free py r t \<longleftrightarrow> (\<forall>n. \<not> hit py r (drop n t))"

text \<open>The text \<open>h\<close> occurs nowhere in the text.\<close>

definition absent :: "pystr \<Rightarrow> pystr \<Rightarrow> bool" where
  "absent h t \<longleftrightarrow> (\<forall>n. \<not> prefix h (drop n t))"

text \<open>A character that is neither a digit nor a slash.\<close>

definition inertc :: "python \<Rightarrow> pychar \<Rightarrow> bool" where
  "inertc py y \<longleftrightarrow> \<not> is_digit py y \<and> y \<noteq> slash"

text \<open>
  The text of a float is written with digits, the point, the exponent mark and signs, as
  \<open>repr\<close> writes a finite float.
\<close>

definition repr_ok :: "python \<Rightarrow> bool" where
  "repr_ok py \<longleftrightarrow> (\<forall>n s. div100_repr py n = Some s \<longrightarrow> set s \<subseteq> set ''0123456789.e+-'')"

text \<open>A rewriting step: a tame pattern with a helper that writes texts of the safe shape.\<close>

definition step_ok :: "python \<Rightarrow> rx \<Rightarrow> (match \<Rightarrow> exn + pystr) \<Rightarrow> bool" where
  "step_ok py r repl \<longleftrightarrow>
     tame py r \<and>
     (\<forall>s c s1 rest out. rx_match py r Map.empty s = (c, s1) # rest \<longrightarrow>
        repl \<lparr>group0 = take (length s - length s1) s, groups = c\<rparr> = Inr out \<longrightarrow> safe_out py out)"

text \<open>The loop over the hex colours, for any list of them.\<close>

definition hex_fold :: "(string \<times> string) list \<Rightarrow> pystr \<Rightarrow> pystr" where
  "hex_fold hm content = foldl (\<lambda>c (hex_val, css_var). py_replace (lit hex_val) (lit css_var) c) content hm"

text \<open>The seven patterns of \<open>migrate_content\<close>.\<close>

definition patterns :: "rx set" where
  "patterns = {bg_opacity_rx, border_opacity_rx, hover_bg_opacity_rx, text_rx, bg_solid_rx,
               border_rx, ring_rx}"

text \<open>A text on which no pattern matches anywhere and in which no hex colour of the map occurs.\<close>

definition migrated :: "python \<Rightarrow> pystr \<Rightarrow> bool" where
  "migrated py t \<longleftrightarrow> (\<forall>r\<in>patterns. free py r t) \<and> (\<forall>(h, v)\<in>set hex_map. absent (lit h) t)"

section \<open>Properties of the ML engine\<close>

lemma call_Inr [simp]: "call (Inr v) k = k v"
  by (simp add: call_def)

lemma call_Inl [simp]: "call (Inl x) k = Inl (Raised x)"
  by (simp add: call_def)

lemma call_eq_Inl: "call r k = Inl e \<Longrightarrow> (\<exists>x. r = Inl x \<and> e = Raised x) \<or> (\<exists>v. r = Inr v \<and> k v = Inl e)"
  by (cases r) auto

lemma call_eq_Inr: "call r k = Inr y \<Longrightarrow> \<exists>v. r = Inr v \<and> k v = Inr y"
  by (cases r) auto

lemma optimize_raised: "optimize L request = Inl e \<Longrightarrow> \<exists>x. e = Raised x"
  unfolding optimize_def
  by (auto dest!: call_eq_Inl split: prod.splits)


lemma never_raises_equal_weight: "never_raises equal_weight"
  by (simp add: never_raises_def equal_weight_def)

lemma call_Inr_iff: "call x k = Inr y \<longleftrightarrow> (\<exists>v. x = Inr v \<and> k v = Inr y)"
  by (cases x) (simp_all add: call_def)

lemma optimize_run:
  "optimize L r = Inr resp \<longleftrightarrow>
     (\<exists>df mu S ef ef1 ef2.
        DataFrame_T L (returns r) (symbols r) = Inr df \<and> mean_historical_return L df = Inr mu
        \<and> ledoit_wolf L df = Inr S \<and> EfficientFrontier L mu S = Inr ef
        \<and> (if objective r = ''max_sharpe'' then max_sharpe L ef (Some (risk_free_rate r))
           else if objective r = ''min_volatility'' then min_volatility L ef
           else max_sharpe L ef None) = Inr ef1
        \<and> clean_weights L ef1 = Inr (weights resp, ef2)
        \<and> portfolio_performance L ef2 (risk_free_rate r)
            = Inr (expected_return resp, volatility resp, sharpe_ratio resp))"
proof -
  define solve where "solve = (\<lambda>ef.
      if objective r = ''max_sharpe'' then max_sharpe L ef (Some (risk_free_rate r))
      else if objective r = ''min_volatility'' then min_volatility L ef
      else max_sharpe L ef None)"
  have e: "resp = \<lparr>weights = w, expected_return = a, volatility = b, sharpe_ratio = c\<rparr>
      \<longleftrightarrow> weights resp = w \<and> expected_return resp = a \<and> volatility resp = b \<and> sharpe_ratio resp = c"
    for w a b c by (cases resp) auto
  have o: "optimize L r =
     call (DataFrame_T L (returns r) (symbols r)) (\<lambda>df.
     call (mean_historical_return L df) (\<lambda>mu.
     call (ledoit_wolf L df) (\<lambda>S.
     call (EfficientFrontier L mu S) (\<lambda>ef.
     call (solve ef) (\<lambda>ef1.
     call (clean_weights L ef1) (\<lambda>(cleaned, ef2).
     call (portfolio_performance L ef2 (risk_free_rate r)) (\<lambda>perf.
       Inr \<lparr>weights = cleaned, expected_return = fst perf, volatility = fst (snd perf),
            sharpe_ratio = snd (snd perf)\<rparr>)))))))"
    unfolding optimize_def solve_def ..
  have "optimize L r = Inr resp \<longleftrightarrow>
     (\<exists>df mu S ef ef1 ef2.
        DataFrame_T L (returns r) (symbols r) = Inr df \<and> mean_historical_return L df = Inr mu
        \<and> ledoit_wolf L df = Inr S \<and> EfficientFrontier L mu S = Inr ef
        \<and> solve ef = Inr ef1
        \<and> clean_weights L ef1 = Inr (weights resp, ef2)
        \<and> portfolio_performance L ef2 (risk_free_rate r)
            = Inr (expected_return resp, volatility resp, sharpe_ratio resp))"
    unfolding o
    by (auto simp: e call_Inr_iff split: prod.splits)
  then show ?thesis unfolding solve_def .
qed

lemma optimize_returns:
  assumes "never_raises L"
  shows "\<not> isl (optimize L r)"
proof -
  note n = assms [unfolded never_raises_def]
  from n have "\<not> isl (DataFrame_T L (returns r) (symbols r))" by blast
  then obtain df where 1: "DataFrame_T L (returns r) (symbols r) = Inr df"
    by (cases "DataFrame_T L (returns r) (symbols r)") auto
  from n have "\<not> isl (mean_historical_return L df)" by blast
  then obtain mu where 2: "mean_historical_return L df = Inr mu"
    by (cases "mean_historical_return L df") auto
  from n have "\<not> isl (ledoit_wolf L df)" by blast
  then obtain S where 3: "ledoit_wolf L df = Inr S"
    by (cases "ledoit_wolf L df") auto
  from n have "\<not> isl (EfficientFrontier L mu S)" by blast
  then obtain ef where 4: "EfficientFrontier L mu S = Inr ef"
    by (cases "EfficientFrontier L mu S") auto
  let ?solve = "if objective r = ''max_sharpe'' then max_sharpe L ef (Some (risk_free_rate r))
           else if objective r = ''min_volatility'' then min_volatility L ef
           else max_sharpe L ef None"
  from n have "\<not> isl ?solve" by simp
  then obtain ef1 where 5: "?solve = Inr ef1" by (cases ?solve) auto
  from n have "\<not> isl (clean_weights L ef1)" by blast
  then obtain c ef2 where 6: "clean_weights L ef1 = Inr (c, ef2)"
    by (cases "clean_weights L ef1") auto
  from n have "\<not> isl (portfolio_performance L ef2 (risk_free_rate r))" by blast
  then obtain a b d where 7: "portfolio_performance L ef2 (risk_free_rate r) = Inr (a, b, d)"
    by (cases "portfolio_performance L ef2 (risk_free_rate r)") auto
  let ?resp = "\<lparr>weights = c, expected_return = a, volatility = b, sharpe_ratio = d\<rparr>"
  have "optimize L r = Inr ?resp"
    unfolding optimize_run using 1 2 3 4 5 6 7 by auto
  then show ?thesis by simp
qed

text \<open>
  C7. For every list of texts the sentiment operation returns a list of the same length
  whose every element is the neutral placeholder, label "neutral" and confidence 0.5,
  whatever the texts are.
\<close>

theorem analyze_sentiment_neutral:
  "analyze_sentiment texts
     = replicate (length texts) \<lparr>label = ''neutral'', confidence = 1 / 2\<rparr>
   \<and> length (analyze_sentiment texts) = length texts"
  by (simp add: analyze_sentiment_def map_replicate_const)







text \<open>
  C3 (as the code has it). \<open>optimize\<close> never fails with DegenerateResultError, and the
  three numbers of a response are the tuple \<open>portfolio_performance\<close> returned for the
  request's risk-free rate, copied unchanged: a volatility of zero and the Sharpe ratio
  the library computed from it are returned as they are.
\<close>

theorem optimize_reports_library_performance:
  "optimize L r \<noteq> Inl DegenerateResultError
   \<and> (optimize L r = Inr resp \<longrightarrow>
        (\<exists>ef. portfolio_performance L ef (risk_free_rate r)
                = Inr (expected_return resp, volatility resp, sharpe_ratio resp)))"
proof -
  have a: "optimize L r \<noteq> Inl DegenerateResultError"
    using optimize_raised [of L r DegenerateResultError] by auto
  have b: "optimize L r = Inr resp \<Longrightarrow>
        (\<exists>ef. portfolio_performance L ef (risk_free_rate r)
                = Inr (expected_return resp, volatility resp, sharpe_ratio resp))"
    unfolding optimize_def
    by (auto dest!: call_eq_Inr split: prod.splits)
  show ?thesis using a b by blast
qed

theorem optimize_reports_library_performance_witness:
  "optimize probe
     \<lparr>symbols = [''A''], returns = [[Finite (3 / 100), Finite (4 / 100)]],
      objective = ''min_volatility'', risk_free_rate = Finite (5 / 100)\<rparr>
     = Inr \<lparr>weights = [(''min_volatility'', Finite 0)], expected_return = Finite (5 / 100),
            volatility = Finite 0, sharpe_ratio = NaN\<rparr>
   \<and> (\<exists>ef. portfolio_performance probe ef (Finite (5 / 100))
             = Inr (Finite (5 / 100), Finite 0, NaN))"
proof -
  have run: "optimize probe
     \<lparr>symbols = [''A''], returns = [[Finite (3 / 100), Finite (4 / 100)]],
      objective = ''min_volatility'', risk_free_rate = Finite (5 / 100)\<rparr>
     = Inr \<lparr>weights = [(''min_volatility'', Finite 0)], expected_return = Finite (5 / 100),
            volatility = Finite 0, sharpe_ratio = NaN\<rparr>"
    by (simp add: optimize_def probe_def)
  show ?thesis
    using run optimize_reports_library_performance
      [of probe "\<lparr>symbols = [''A''], returns = [[Finite (3 / 100), Finite (4 / 100)]],
          objective = ''min_volatility'', risk_free_rate = Finite (5 / 100)\<rparr>"
        "\<lparr>weights = [(''min_volatility'', Finite 0)], expected_return = Finite (5 / 100),
            volatility = Finite 0, sharpe_ratio = NaN\<rparr>"]
    by simp
qed

text \<open>
  C3 as stated fails: the library reports a volatility of zero and \<open>optimize\<close> returns
  it, with NaN as the Sharpe ratio.
\<close>

theorem optimize_zero_volatility_returned:
  "optimize probe
     \<lparr>symbols = [''A''], returns = [[Finite (1 / 100), Finite (2 / 100)]],
      objective = ''max_sharpe'', risk_free_rate = Finite (5 / 100)\<rparr>
   = Inr \<lparr>weights = [(''max_sharpe'', Finite (5 / 100))], expected_return = Finite (5 / 100),
          volatility = Finite 0, sharpe_ratio = NaN\<rparr>"
  by (simp add: optimize_def probe_def)

text \<open>
  C4 (as the code has it). The mapping \<open>optimize\<close> returns is the mapping
  \<open>clean_weights\<close> returned for the frontier the solver call left, passed on unchanged:
  \<open>optimize\<close> neither renormalises nor checks it. Whatever mapping the cleaner returns in
  its place is returned in its place, and with a library none of whose calls raises there
  is a response. So the weights sum to 1 within 1e-6 and lie within the bounds when the
  mapping of the library's cleaner does.
\<close>

theorem optimize_returns_cleaned_weights:
  "(optimize L r = Inr resp \<longrightarrow>
      (\<exists>ef ef1 ef2.
         (if objective r = ''max_sharpe'' then max_sharpe L ef (Some (risk_free_rate r))
          else if objective r = ''min_volatility'' then min_volatility L ef
          else max_sharpe L ef None) = Inr ef1
         \<and> clean_weights L ef1 = Inr (weights resp, ef2)))
   \<and> optimize (L\<lparr>clean_weights := \<lambda>ef. map_sum id (\<lambda>(c, ef2). (w, ef2)) (clean_weights L ef)\<rparr>) r
       = map_sum id (\<lambda>resp. resp\<lparr>weights := w\<rparr>) (optimize L r)
   \<and> (never_raises L \<longrightarrow> \<not> isl (optimize L r))"
proof (intro conjI impI)
  assume "optimize L r = Inr resp"
  then show "\<exists>ef ef1 ef2.
         (if objective r = ''max_sharpe'' then max_sharpe L ef (Some (risk_free_rate r))
          else if objective r = ''min_volatility'' then min_volatility L ef
          else max_sharpe L ef None) = Inr ef1
         \<and> clean_weights L ef1 = Inr (weights resp, ef2)"
    unfolding optimize_run by blast
next
  show "optimize (L\<lparr>clean_weights := \<lambda>ef. map_sum id (\<lambda>(c, ef2). (w, ef2)) (clean_weights L ef)\<rparr>) r
       = map_sum id (\<lambda>resp. resp\<lparr>weights := w\<rparr>) (optimize L r)"
    unfolding optimize_def
    by (auto simp: call_def split: sum.splits prod.splits)
next
  assume "never_raises L"
  then show "\<not> isl (optimize L r)" by (rule optimize_returns)
qed

theorem optimize_returns_cleaned_weights_witness:
  "optimize equal_weight
     \<lparr>symbols = [''A'', ''B''], returns = [[Finite (1 / 100), Finite (2 / 100)], [Finite 0, Finite (1 / 100)]],
      objective = ''min_volatility'', risk_free_rate = Finite (5 / 100)\<rparr>
     = Inr \<lparr>weights = [(''A'', Finite (1 / 2)), (''B'', Finite (1 / 2))],
            expected_return = Finite (5 / 100), volatility = Finite 0, sharpe_ratio = NaN\<rparr>
   \<and> (\<exists>ef ef1 ef2. min_volatility equal_weight ef = Inr ef1
         \<and> clean_weights equal_weight ef1 = Inr ([(''A'', Finite (1 / 2)), (''B'', Finite (1 / 2))], ef2))"
proof -
  let ?r = "\<lparr>symbols = [''A'', ''B''],
      returns = [[Finite (1 / 100), Finite (2 / 100)], [Finite 0, Finite (1 / 100)]],
      objective = ''min_volatility'', risk_free_rate = Finite (5 / 100)\<rparr>"
  let ?resp = "\<lparr>weights = [(''A'', Finite (1 / 2)), (''B'', Finite (1 / 2))],
            expected_return = Finite (5 / 100), volatility = Finite 0, sharpe_ratio = NaN\<rparr>"
  have run: "optimize equal_weight ?r = Inr ?resp"
    by (simp add: optimize_def equal_weight_def round5_def round_def)
  from optimize_returns_cleaned_weights [of equal_weight ?r ?resp] run never_raises_equal_weight
  show ?thesis by simp
qed

text \<open>
  C4 as stated fails: three symbols, each with two observations. The solver of the
  stand-in gives each a third, its cleaner rounds that to 0.33333, and \<open>optimize\<close>
  returns the three rounded weights, whose sum 0.99999 is further than 1e-6 from 1.
\<close>

theorem optimize_weights_sum_off:
  "optimize equal_weight
     \<lparr>symbols = [''A'', ''B'', ''C''],
      returns = [[Finite (1 / 100), Finite (2 / 100)], [Finite 0, Finite (1 / 100)],
                 [Finite (3 / 100), Finite (1 / 100)]],
      objective = ''max_sharpe'', risk_free_rate = Finite (5 / 100)\<rparr>
     = Inr \<lparr>weights = [(''A'', Finite (33333 / 10 ^ 5)), (''B'', Finite (33333 / 10 ^ 5)),
                       (''C'', Finite (33333 / 10 ^ 5))],
            expected_return = Finite (5 / 100), volatility = Finite 0, sharpe_ratio = NaN\<rparr>
   \<and> weight_sum [(''A'', Finite (33333 / 10 ^ 5)), (''B'', Finite (33333 / 10 ^ 5)),
                  (''C'', Finite (33333 / 10 ^ 5))] = 99999 / 10 ^ 5
   \<and> \<bar>weight_sum [(''A'', Finite (33333 / 10 ^ 5)), (''B'', Finite (33333 / 10 ^ 5)),
                   (''C'', Finite (33333 / 10 ^ 5))] - 1\<bar> > 1 / 10 ^ 6"
  by (simp add: optimize_def equal_weight_def round5_def round_def weight_sum_def)




section \<open>Properties of the weight cleaner of the design\<close>






section \<open>Properties of the matcher\<close>

subsection \<open>What the matcher returns\<close>

lemma in_digit_runs:
  "t \<in> set (digit_runs py s) \<longleftrightarrow>
     (\<exists>k. 0 < k \<and> k \<le> length s \<and> t = drop k s \<and> (\<forall>x\<in>set (take k s). is_digit py x))"
proof (induction s)
  case Nil
  then show ?case by simp
next
  case (Cons a s)
  show ?case
  proof (cases "is_digit py a")
    case False
    have "\<not> (\<exists>k. 0 < k \<and> k \<le> length (a # s) \<and> t = drop k (a # s)
             \<and> (\<forall>x\<in>set (take k (a # s)). is_digit py x))"
    proof
      assume "\<exists>k. 0 < k \<and> k \<le> length (a # s) \<and> t = drop k (a # s)
             \<and> (\<forall>x\<in>set (take k (a # s)). is_digit py x)"
      then obtain k where k: "0 < k" "\<forall>x\<in>set (take k (a # s)). is_digit py x" by blast
      then obtain j where "k = Suc j" by (cases k) auto
      with k have "is_digit py a" by simp
      with False show False by simp
    qed
    with False show ?thesis by simp
  next
    case True
    show ?thesis
    proof
      assume "t \<in> set (digit_runs py (a # s))"
      with True have "t \<in> set (digit_runs py s) \<or> t = s" by auto
      then show "\<exists>k. 0 < k \<and> k \<le> length (a # s) \<and> t = drop k (a # s)
             \<and> (\<forall>x\<in>set (take k (a # s)). is_digit py x)"
      proof
        assume "t \<in> set (digit_runs py s)"
        with Cons.IH obtain k where k: "0 < k" "k \<le> length s" "t = drop k s"
          "\<forall>x\<in>set (take k s). is_digit py x" by blast
        with True have "0 < Suc k \<and> Suc k \<le> length (a # s) \<and> t = drop (Suc k) (a # s)
             \<and> (\<forall>x\<in>set (take (Suc k) (a # s)). is_digit py x)" by simp
        then show ?thesis by blast
      next
        assume "t = s"
        with True have "0 < Suc 0 \<and> Suc 0 \<le> length (a # s) \<and> t = drop (Suc 0) (a # s)
             \<and> (\<forall>x\<in>set (take (Suc 0) (a # s)). is_digit py x)" by simp
        then show ?thesis by blast
      qed
    next
      assume "\<exists>k. 0 < k \<and> k \<le> length (a # s) \<and> t = drop k (a # s)
             \<and> (\<forall>x\<in>set (take k (a # s)). is_digit py x)"
      then obtain k where k: "0 < k" "k \<le> length (a # s)" "t = drop k (a # s)"
          "\<forall>x\<in>set (take k (a # s)). is_digit py x" by blast
      then obtain j where j: "k = Suc j" by (cases k) auto
      show "t \<in> set (digit_runs py (a # s))"
      proof (cases j)
        case 0
        with j k True show ?thesis by simp
      next
        case (Suc i)
        with j k have "0 < j \<and> j \<le> length s \<and> t = drop j s \<and> (\<forall>x\<in>set (take j s). is_digit py x)"
          by simp
        with Cons.IH have "t \<in> set (digit_runs py s)" by blast
        with True show ?thesis by simp
      qed
    qed
  qed
qed

lemma in_Lit:
  "(c', t) \<in> set (rx_match py (Lit l) c s) \<longleftrightarrow> c' = c \<and> prefix l s \<and> t = drop (length l) s"
  by auto

lemma in_OneOf:
  "(c', t) \<in> set (rx_match py (OneOf ls) c s) \<longleftrightarrow>
     c' = c \<and> (\<exists>l\<in>set ls. prefix l s \<and> t = drop (length l) s)"
  by auto

lemma in_Digits1:
  "(c', t) \<in> set (rx_match py Digits1 c s) \<longleftrightarrow> c' = c \<and> t \<in> set (digit_runs py s)"
  by auto

lemma in_Cat:
  "(c', t) \<in> set (rx_match py (Cat a b) c s) \<longleftrightarrow>
     (\<exists>c1 s1. (c1, s1) \<in> set (rx_match py a c s) \<and> (c', t) \<in> set (rx_match py b c1 s1))"
  by auto

lemma in_Opt:
  "(c', t) \<in> set (rx_match py (Opt a) c s) \<longleftrightarrow>
     (c', t) \<in> set (rx_match py a c s) \<or> (c' = c \<and> t = s)"
  by auto

lemma in_Grp:
  "(c', t) \<in> set (rx_match py (Grp i a) c s) \<longleftrightarrow>
     (\<exists>c1. (c1, t) \<in> set (rx_match py a c s) \<and> c' = c1(i \<mapsto> take (length s - length t) s))"
  by auto

lemma in_NotAheadChr:
  "(c', t) \<in> set (rx_match py (NotAheadChr x) c s) \<longleftrightarrow> c' = c \<and> t = s \<and> \<not> prefix [x] s"
  by (auto split: if_splits)

declare rx_match.simps [simp del]

lemmas in_rx = in_Lit in_OneOf in_Digits1 in_Cat in_Opt in_Grp in_NotAheadChr

lemma rx_match_consumes:
  "(c', t) \<in> set (rx_match py r c s) \<Longrightarrow>
     \<exists>k. k \<le> length s \<and> t = drop k s \<and> (\<forall>x\<in>set (take k s). x \<in> alpha r \<or> is_digit py x)"
proof (induction r arbitrary: c c' s t)
  case (Lit l)
  then have "prefix l s" "t = drop (length l) s" by (auto simp: in_Lit)
  then have "length l \<le> length s \<and> t = drop (length l) s \<and> take (length l) s = l"
    by (auto simp: prefix_def)
  then show ?case by (intro exI [of _ "length l"]) auto
next
  case (OneOf ls)
  then obtain l where l: "l \<in> set ls" "prefix l s" "t = drop (length l) s" by (auto simp: in_OneOf)
  then have "length l \<le> length s \<and> t = drop (length l) s \<and> take (length l) s = l"
    by (auto simp: prefix_def)
  with l(1) show ?case by (intro exI [of _ "length l"]) auto
next
  case Digits1
  then show ?case by (auto simp: in_Digits1 in_digit_runs)
next
  case (Cat a b)
  from Cat.prems obtain c1 s1 where 1: "(c1, s1) \<in> set (rx_match py a c s)"
    and 2: "(c', t) \<in> set (rx_match py b c1 s1)" by (auto simp: in_Cat)
  from Cat.IH(1) [OF 1] obtain k1 where k1: "k1 \<le> length s" "s1 = drop k1 s"
    "\<forall>x\<in>set (take k1 s). x \<in> alpha a \<or> is_digit py x" by blast
  from Cat.IH(2) [OF 2] obtain k2 where k2: "k2 \<le> length s1" "t = drop k2 s1"
    "\<forall>x\<in>set (take k2 s1). x \<in> alpha b \<or> is_digit py x" by blast
  have "take (k1 + k2) s = take k1 s @ take k2 (drop k1 s)" by (simp add: take_add)
  with k1 k2 have "k1 + k2 \<le> length s \<and> t = drop (k1 + k2) s
      \<and> (\<forall>x\<in>set (take (k1 + k2) s). x \<in> alpha (Cat a b) \<or> is_digit py x)"
    by (auto simp: add.commute)
  then show ?case by blast
next
  case (Opt a)
  from Opt.prems have "(c', t) \<in> set (rx_match py a c s) \<or> t = s" by (auto simp: in_Opt)
  then show ?case
  proof
    assume "(c', t) \<in> set (rx_match py a c s)"
    from Opt.IH [OF this] show ?thesis by simp
  next
    assume "t = s"
    then show ?thesis by (intro exI [of _ 0]) simp
  qed
next
  case (Grp i a)
  then obtain c1 where "(c1, t) \<in> set (rx_match py a c s)" by (auto simp: in_Grp)
  from Grp.IH [OF this] show ?case by simp
next
  case (NotAheadChr x)
  then have "t = s" by (simp add: in_NotAheadChr)
  then show ?case by (intro exI [of _ 0]) simp
qed

lemma rx_match_zero_width:
  "zero_width r \<Longrightarrow> (c', t) \<in> set (rx_match py r c s) \<Longrightarrow> t = s"
proof (induction r arbitrary: c c' s t)
  case (Cat a b)
  from Cat.prems obtain c1 s1 where 1: "(c1, s1) \<in> set (rx_match py a c s)"
    and 2: "(c', t) \<in> set (rx_match py b c1 s1)" by (auto simp: in_Cat)
  from Cat.prems have z: "zero_width a" "zero_width b" by simp_all
  from Cat.IH(1) [OF z(1) 1] Cat.IH(2) [OF z(2) 2] show ?case by simp
next
  case (OneOf ls)
  then show ?case by (auto simp: in_OneOf)
next
  case (Opt a)
  then show ?case by (auto simp: in_Opt)
next
  case (Grp i a)
  then show ?case by (auto simp: in_Grp)
next
  case (Lit l)
  then show ?case by (simp add: in_Lit)
next
  case Digits1
  then show ?case by simp
next
  case (NotAheadChr x)
  then show ?case by (simp add: in_NotAheadChr)
qed

lemma rx_match_ends_digit:
  "ends_digit r \<Longrightarrow> (c', t) \<in> set (rx_match py r c s) \<Longrightarrow>
     \<exists>k. 0 < k \<and> k \<le> length s \<and> t = drop k s \<and> is_digit py (s ! (k - 1))"
proof (induction r arbitrary: c c' s t)
  case Digits1
  then obtain k where k: "0 < k" "k \<le> length s" "t = drop k s" "\<forall>x\<in>set (take k s). is_digit py x"
    by (auto simp: in_Digits1 in_digit_runs)
  then have "take k s ! (k - 1) \<in> set (take k s)" by (intro nth_mem) simp
  with k have "is_digit py (s ! (k - 1))" by simp
  with k show ?case by blast
next
  case (Cat a b)
  from Cat.prems obtain c1 s1 where 1: "(c1, s1) \<in> set (rx_match py a c s)"
    and 2: "(c', t) \<in> set (rx_match py b c1 s1)" by (auto simp: in_Cat)
  from rx_match_consumes [OF 1] obtain k1 where k1: "k1 \<le> length s" "s1 = drop k1 s" by blast
  from Cat.prems(1) have "ends_digit b \<or> (ends_digit a \<and> zero_width b)" by simp
  then show ?case
  proof
    assume "ends_digit b"
    from Cat.IH(2) [OF this 2] obtain k where k: "0 < k" "k \<le> length s1" "t = drop k s1"
      "is_digit py (s1 ! (k - 1))" by blast
    with k1 have "s1 ! (k - 1) = s ! (k1 + k - 1)" by (simp add: add.commute)
    with k k1 have "0 < k1 + k \<and> k1 + k \<le> length s \<and> t = drop (k1 + k) s
       \<and> is_digit py (s ! (k1 + k - 1))" by (auto simp: add.commute)
    then show ?thesis by blast
  next
    assume "ends_digit a \<and> zero_width b"
    then have "t = s1" using rx_match_zero_width [OF _ 2] by simp
    with Cat.IH(1) [OF _ 1] \<open>ends_digit a \<and> zero_width b\<close> show ?thesis by simp
  qed
next
  case (Grp i a)
  then obtain c1 where "(c1, t) \<in> set (rx_match py a c s)" by (auto simp: in_Grp)
  with Grp show ?case by simp
qed simp_all

lemma rx_match_frame:
  "(c', t) \<in> set (rx_match py r c s) \<Longrightarrow> i \<notin> groups_of r \<Longrightarrow> c' i = c i"
proof (induction r arbitrary: c c' s t)
  case (Cat a b)
  from Cat.prems obtain c1 s1 where 1: "(c1, s1) \<in> set (rx_match py a c s)"
    and 2: "(c', t) \<in> set (rx_match py b c1 s1)" by (auto simp: in_Cat)
  from Cat.prems have z: "i \<notin> groups_of a" "i \<notin> groups_of b" by simp_all
  from Cat.IH(1) [OF 1 z(1)] Cat.IH(2) [OF 2 z(2)] show ?case by simp
next
  case (Opt a)
  then show ?case by (auto simp: in_Opt)
next
  case (Grp j a)
  then show ?case by (auto simp: in_Grp)
next
  case (Lit l)
  then show ?case by (simp add: in_Lit)
next
  case (OneOf ls)
  then show ?case by (simp add: in_OneOf)
next
  case Digits1
  then show ?case by (simp add: in_Digits1)
next
  case (NotAheadChr x)
  then show ?case by (simp add: in_NotAheadChr)
qed

subsection \<open>A match depends on the text it consumes and looks at\<close>

lemma drop_eq_drop:
  "drop k s = drop j s \<Longrightarrow> k \<le> length s \<Longrightarrow> j \<le> length s \<Longrightarrow> k = j"
proof -
  assume a: "drop k s = drop j s" "k \<le> length s" "j \<le> length s"
  then have "length s - k = length s - j" by (metis length_drop)
  with a show ?thesis by simp
qed

lemma drop_eq_self: "drop k s = s \<Longrightarrow> k \<le> length s \<Longrightarrow> k = 0"
  using drop_eq_drop [of k s 0] by simp

lemma take_agree_nth:
  "take k s' = take k s \<Longrightarrow> j < k \<Longrightarrow> s' ! j = s ! j"
  by (metis nth_take)

lemma prefix_single_drop:
  "j < length s \<Longrightarrow> prefix [x] (drop j s) \<longleftrightarrow> s ! j = x"
  by (simp add: prefix_def Cons_nth_drop_Suc [symmetric])

lemma rx_match_local:
  assumes "(c', drop k s) \<in> set (rx_match py r c s)" "k \<le> length s"
    and "take k s' = take k s" "k \<le> length s'"
    and "\<forall>x\<in>ahead r. prefix [x] (drop k s') = prefix [x] (drop k s)"
  shows "(c', drop k s') \<in> set (rx_match py r c s')"
  using assms
proof (induction r arbitrary: c c' s s' k)
  case (Lit l)
  then have p: "prefix l s" "drop k s = drop (length l) s" "c' = c" by (auto simp: in_Lit)
  then have "length l \<le> length s" by (simp add: prefix_length_le)
  with p Lit.prems have k: "k = length l" by (auto dest: drop_eq_drop)
  from p have "take (length l) s = l" by (auto simp: prefix_def)
  with k Lit.prems have "take (length l) s' = l" by simp
  then have "prefix l s'" by (metis take_is_prefix)
  with k p show ?case by (simp add: in_Lit)
next
  case (OneOf ls)
  then obtain l where l: "l \<in> set ls" "prefix l s" "drop k s = drop (length l) s" "c' = c"
    by (auto simp: in_OneOf)
  then have "length l \<le> length s" by (simp add: prefix_length_le)
  with l OneOf.prems have k: "k = length l" by (auto dest: drop_eq_drop)
  from l have "take (length l) s = l" by (auto simp: prefix_def)
  with k OneOf.prems have "take (length l) s' = l" by simp
  then have "prefix l s'" by (metis take_is_prefix)
  with k l show ?case by (auto simp: in_OneOf)
next
  case Digits1
  then obtain j where j: "0 < j" "j \<le> length s" "drop k s = drop j s"
    "\<forall>x\<in>set (take j s). is_digit py x" "c' = c"
    by (auto simp: in_Digits1 in_digit_runs)
  with Digits1.prems have "k = j" by (auto dest: drop_eq_drop)
  with j Digits1.prems have "0 < k \<and> k \<le> length s' \<and> drop k s' = drop k s'
     \<and> (\<forall>x\<in>set (take k s'). is_digit py x)" by simp
  with j show ?case unfolding in_Digits1 in_digit_runs by blast
next
  case (Cat a b)
  from Cat.prems(1) obtain c1 s1 where 1: "(c1, s1) \<in> set (rx_match py a c s)"
    and 2: "(c', drop k s) \<in> set (rx_match py b c1 s1)" by (auto simp: in_Cat)
  from rx_match_consumes [OF 1] obtain k1 where k1: "k1 \<le> length s" "s1 = drop k1 s" by blast
  from rx_match_consumes [OF 2] obtain k2 where k2: "k2 \<le> length s1" "drop k s = drop k2 s1" by blast
  from k1 k2 have "drop k s = drop (k1 + k2) s" "k1 + k2 \<le> length s" by (simp_all add: add.commute)
  with Cat.prems(2) have k: "k = k1 + k2" by (auto dest: drop_eq_drop)
  have t1: "take k1 s' = take k1 s"
  proof -
    have "take k1 (take k s') = take k1 (take k s)" using Cat.prems(3) by simp
    then show ?thesis using k by (simp add: min_def)
  qed
  have le1: "k1 \<le> length s'" using k Cat.prems(4) by simp
  have a1: "\<forall>x\<in>ahead a. prefix [x] (drop k1 s') = prefix [x] (drop k1 s)"
  proof (cases "k2 = 0")
    case True
    with k Cat.prems(5) show ?thesis by simp
  next
    case False
    with k have lt: "k1 < k" by simp
    then have "s' ! k1 = s ! k1" using Cat.prems(3) by (rule take_agree_nth [rotated])
    moreover have "k1 < length s'" "k1 < length s" using lt Cat.prems(2,4) by simp_all
    ultimately show ?thesis by (simp add: prefix_single_drop)
  qed
  from 1 k1 have m1: "(c1, drop k1 s) \<in> set (rx_match py a c s)" by simp
  have A: "(c1, drop k1 s') \<in> set (rx_match py a c s')"
    using Cat.IH(1) [OF m1 k1(1) t1 le1 a1] .
  from 2 k k1 have m2: "(c', drop k2 (drop k1 s)) \<in> set (rx_match py b c1 (drop k1 s))"
    by (simp add: add.commute)
  have t2: "take k2 (drop k1 s') = take k2 (drop k1 s)"
  proof -
    have "drop k1 (take (k1 + k2) s') = drop k1 (take (k1 + k2) s)"
      using Cat.prems(3) k by simp
    then show ?thesis by (simp add: drop_take)
  qed
  have le2: "k2 \<le> length (drop k1 s')" "k2 \<le> length (drop k1 s)"
    using k Cat.prems(2,4) by simp_all
  have a2: "\<forall>x\<in>ahead b. prefix [x] (drop k2 (drop k1 s')) = prefix [x] (drop k2 (drop k1 s))"
    using Cat.prems(5) k by (simp add: add.commute)
  have B: "(c', drop k2 (drop k1 s')) \<in> set (rx_match py b c1 (drop k1 s'))"
    using Cat.IH(2) [OF m2 le2(2) t2 le2(1) a2] .
  have "drop k2 (drop k1 s') = drop k s'" using k by (simp add: add.commute)
  with A B show ?case unfolding in_Cat by auto
next
  case (Opt a)
  from Opt.prems(1) have "(c', drop k s) \<in> set (rx_match py a c s) \<or> (c' = c \<and> drop k s = s)"
    by (simp add: in_Opt)
  then show ?case
  proof
    assume "(c', drop k s) \<in> set (rx_match py a c s)"
    from Opt.IH [OF this Opt.prems(2,3,4)] Opt.prems(5) show ?thesis by (simp add: in_Opt)
  next
    assume e: "c' = c \<and> drop k s = s"
    with Opt.prems(2) have "k = 0" by (auto dest: drop_eq_self)
    with e show ?thesis by (simp add: in_Opt)
  qed
next
  case (Grp i a)
  from Grp.prems(1) obtain c1 where 1: "(c1, drop k s) \<in> set (rx_match py a c s)"
    and c': "c' = c1(i \<mapsto> take (length s - length (drop k s)) s)" by (auto simp: in_Grp)
  from Grp.IH [OF 1 Grp.prems(2,3,4)] Grp.prems(5)
  have A: "(c1, drop k s') \<in> set (rx_match py a c s')" by simp
  have "take (length s - length (drop k s)) s = take k s" using Grp.prems(2) by simp
  moreover have "take (length s' - length (drop k s')) s' = take k s'" using Grp.prems(4) by simp
  ultimately have "c' = c1(i \<mapsto> take (length s' - length (drop k s')) s')"
    using c' Grp.prems(3) by simp
  with A show ?case unfolding in_Grp by blast
next
  case (NotAheadChr x)
  then have e: "c' = c" "drop k s = s" "\<not> prefix [x] s" by (auto simp: in_NotAheadChr)
  with NotAheadChr.prems(2) have k: "k = 0" by (auto dest: drop_eq_self)
  with NotAheadChr.prems(5) e have "\<not> prefix [x] s'" by simp
  with k e show ?case by (simp add: in_NotAheadChr)
qed

subsection \<open>The groups of a match of an opacity pattern\<close>

lemma ALL_COLORS_PLUS_GRAY_eq:
  "ALL_COLORS_PLUS_GRAY =
     [''emerald'', ''fuchsia'', ''yellow'', ''orange'', ''purple'', ''indigo'', ''violet'',
      ''green'', ''amber'', ''slate'', ''teal'', ''rose'', ''blue'', ''cyan'', ''pink'', ''gray'',
      ''red'', ''sky'']"
  by (simp add: ALL_COLORS_PLUS_GRAY_def sorted_by_len_reverse_def COLOR_SEMANTIC_def)

lemma lit_inject [simp]: "lit a = lit b \<longleftrightarrow> a = b"
  by (simp add: lit_def inj_map_eq_map inj_def)

lemma lit_Nil [simp]: "lit a = [] \<longleftrightarrow> a = []"
  by (simp add: lit_def)

lemma in_Grp_OneOf:
  "(c', t) \<in> set (rx_match py (Grp i (OneOf ls)) c s) \<longleftrightarrow>
     (\<exists>l\<in>set ls. prefix l s \<and> t = drop (length l) s \<and> c' = c(i \<mapsto> l))"
proof -
  have "\<And>l. prefix l s \<Longrightarrow> take (length s - length (drop (length l) s)) s = l"
    by (auto simp: prefix_def)
  then show ?thesis unfolding in_Grp in_OneOf by auto
qed

lemma in_Grp_Digits1:
  "(c', t) \<in> set (rx_match py (Grp i Digits1) c s) \<longleftrightarrow>
     (\<exists>k. 0 < k \<and> k \<le> length s \<and> t = drop k s \<and> (\<forall>x\<in>set (take k s). is_digit py x)
          \<and> c' = c(i \<mapsto> take k s))"
  unfolding in_Grp in_Digits1 in_digit_runs by auto

lemma opacity_match_groups:
  assumes "(c', t) \<in> set (rx_match py
      (cat [Lit kw, Grp (Suc 0) (OneOf cs), Lit d1, Grp 2 Digits1, Lit d2, Grp 3 Digits1]) c s)"
  shows "\<exists>l\<in>set cs. \<exists>ds. c' (Suc 0) = Some l \<and> c' 3 = Some ds \<and> ds \<noteq> [] \<and> list_all (is_digit py) ds"
proof -
  from assms obtain s1 c2 s2 s3 c4 s4 s5 where
    g1: "(c2, s2) \<in> set (rx_match py (Grp (Suc 0) (OneOf cs)) c s1)" and
    g2: "(c4, s4) \<in> set (rx_match py (Grp 2 Digits1) c2 s3)" and
    g3: "(c', t) \<in> set (rx_match py (Grp 3 Digits1) c4 s5)"
    by (auto simp: in_Cat in_Lit)
  from g1 obtain l where l: "l \<in> set cs" "c2 = c(Suc 0 \<mapsto> l)" by (auto simp: in_Grp_OneOf)
  from g2 have c4: "c4 (Suc 0) = c2 (Suc 0)" by (auto simp: in_Grp_Digits1)
  from g3 obtain k where k: "0 < k" "k \<le> length s5" "\<forall>x\<in>set (take k s5). is_digit py x"
    "c' = c4(3 \<mapsto> take k s5)" by (auto simp: in_Grp_Digits1)
  have "c' (Suc 0) = Some l" using k l c4 by simp
  moreover have "c' 3 = Some (take k s5)" using k by simp
  moreover have "take k s5 \<noteq> []" using k by auto
  moreover have "list_all (is_digit py) (take k s5)" using k by (simp add: list_all_iff)
  ultimately show ?thesis using l by blast
qed

lemma COLOR_RGBA_covers:
  "\<forall>color\<in>set ALL_COLORS_PLUS_GRAY. \<exists>rgba. dict_get COLOR_RGBA (Some (lit color)) = Some rgba \<and> rgba \<noteq> []"
  by (simp add: ALL_COLORS_PLUS_GRAY_eq dict_get_def COLOR_RGBA_def)

lemma opacity_rewrite_matched:
  assumes "color \<in> set ALL_COLORS_PLUS_GRAY"
  shows "\<exists>rgba. dict_get COLOR_RGBA (Some (lit color)) = Some rgba \<and> rgba \<noteq> [] \<and>
     opacity_rewrite py head \<lparr>group0 = g0, groups = c(Suc 0 \<mapsto> lit color)\<rparr>
       = bind (py_int py (c 3)) (\<lambda>n. bind (py_div100 py n) (\<lambda>opacity.
           Inr (lit head @ rgba @ lit '','' @ opacity @ lit '')]'')))"
proof -
  from COLOR_RGBA_covers assms obtain rgba where
    r: "dict_get COLOR_RGBA (Some (lit color)) = Some rgba" "rgba \<noteq> []" by blast
  then show ?thesis
    by (auto simp: opacity_rewrite_def group_def bind_def Let_def split: sum.splits)
qed

lemma covered_opacity:
  assumes r: "r = cat [Lit kw, Grp (Suc 0) colors_rx, Lit d1, Grp 2 Digits1, Lit d2, Grp 3 Digits1]"
  shows "covered py r (opacity_rewrite py head) head"
  unfolding covered_def
proof (intro allI impI)
  fix s c s1
  assume m: "(c, s1) \<in> set (rx_match py r Map.empty s)"
  from opacity_match_groups [OF m [unfolded r colors_rx_def]]
  obtain l ds where l: "l \<in> set (map lit ALL_COLORS_PLUS_GRAY)" "c (Suc 0) = Some l"
    "c 3 = Some ds" "ds \<noteq> []" "list_all (is_digit py) ds" by blast
  then obtain color where color: "color \<in> set ALL_COLORS_PLUS_GRAY" "l = lit color" by auto
  have c: "c = c(Suc 0 \<mapsto> lit color)" using l color by (auto simp: fun_upd_idem)
  from opacity_rewrite_matched [OF color(1), of py head "take (length s - length s1) s" c]
  obtain rgba where rg: "dict_get COLOR_RGBA (Some (lit color)) = Some rgba" "rgba \<noteq> []"
    "opacity_rewrite py head \<lparr>group0 = take (length s - length s1) s, groups = c(Suc 0 \<mapsto> lit color)\<rparr>
       = bind (py_int py (c 3)) (\<lambda>n. bind (py_div100 py n) (\<lambda>opacity.
           Inr (lit head @ rgba @ lit '','' @ opacity @ lit '')]'')))" by blast
  from rg(3) c have "opacity_rewrite py head \<lparr>group0 = take (length s - length s1) s, groups = c\<rparr>
       = bind (py_int py (c 3)) (\<lambda>n. bind (py_div100 py n) (\<lambda>opacity.
           Inr (lit head @ rgba @ lit '','' @ opacity @ lit '')]'')))" by simp
  with color l rg show "\<exists>color\<in>set ALL_COLORS_PLUS_GRAY. \<exists>rgba ds.
           c 1 = Some (lit color) \<and> dict_get COLOR_RGBA (c 1) = Some rgba \<and> rgba \<noteq> [] \<and>
           c 3 = Some ds \<and> ds \<noteq> [] \<and> list_all (is_digit py) ds \<and>
           opacity_rewrite py head \<lparr>group0 = take (length s - length s1) s, groups = c\<rparr>
             = bind (py_int py (c 3)) (\<lambda>n. bind (py_div100 py n) (\<lambda>opacity.
                 Inr (lit head @ rgba @ lit '','' @ opacity @ lit '')]'')))"
    by auto
qed

subsection \<open>The first character of a match\<close>

lemma prefix_hd: "prefix l s \<Longrightarrow> l \<noteq> [] \<Longrightarrow> s \<noteq> [] \<and> hd s = hd l"
  by (cases l; cases s) auto

lemma rx_match_first:
  "(c', t) \<in> set (rx_match py r c s) \<Longrightarrow>
     (t = s \<and> can_be_empty r) \<or> (s \<noteq> [] \<and> first_ok py r (hd s))"
proof (induction r arbitrary: c c' s t)
  case (Lit l)
  then have p: "prefix l s" "t = drop (length l) s" by (auto simp: in_Lit)
  show ?case
  proof (cases "l = []")
    case True with p show ?thesis by simp
  next
    case False with p prefix_hd [of l s] show ?thesis by simp
  qed
next
  case (OneOf ls)
  then obtain l where l: "l \<in> set ls" "prefix l s" "t = drop (length l) s" by (auto simp: in_OneOf)
  show ?case
  proof (cases "l = []")
    case True with l show ?thesis by auto
  next
    case False with l prefix_hd [of l s] show ?thesis by auto
  qed
next
  case Digits1
  then obtain k where k: "0 < k" "k \<le> length s" "\<forall>x\<in>set (take k s). is_digit py x"
    by (auto simp: in_Digits1 in_digit_runs)
  then have "s \<noteq> []" by auto
  moreover from this k have "hd s \<in> set (take k s)" by (cases s; cases k) auto
  ultimately show ?case using k by simp
next
  case (Cat a b)
  from Cat.prems obtain c1 s1 where 1: "(c1, s1) \<in> set (rx_match py a c s)"
    and 2: "(c', t) \<in> set (rx_match py b c1 s1)" by (auto simp: in_Cat)
  from Cat.IH(1) [OF 1] Cat.IH(2) [OF 2] show ?case by auto
next
  case (Opt a)
  from Opt.prems have "(c', t) \<in> set (rx_match py a c s) \<or> t = s" by (auto simp: in_Opt)
  with Opt.IH show ?case by auto
next
  case (Grp i a)
  then obtain c1 where "(c1, t) \<in> set (rx_match py a c s)" by (auto simp: in_Grp)
  from Grp.IH [OF this] show ?case by simp
next
  case (NotAheadChr x)
  then show ?case by (simp add: in_NotAheadChr)
qed

lemma hitE:
  assumes "hit py r s"
  obtains c t where "(c, t) \<in> set (rx_match py r Map.empty s)"
  using assms unfolding hit_def by (cases "rx_match py r Map.empty s") auto

lemma hitI: "(c, t) \<in> set (rx_match py r Map.empty s) \<Longrightarrow> hit py r s"
  unfolding hit_def by auto

lemma tame_hit_shape:
  assumes "tame py r" "(c, t) \<in> set (rx_match py r c0 s)"
  shows "\<exists>k. 0 < k \<and> k \<le> length s \<and> t = drop k s \<and> is_digit py (s ! (k - 1))
             \<and> (\<forall>x\<in>set (take k s). wordc x \<or> is_digit py x) \<and> leader (hd s)"
proof -
  from assms have ed: "ends_digit r" and al: "\<forall>x\<in>alpha r. wordc x"
    and fo: "\<forall>x. first_ok py r x \<longrightarrow> leader x" by (auto simp: tame_def)
  from rx_match_ends_digit [OF ed assms(2)] obtain k where
    k: "0 < k" "k \<le> length s" "t = drop k s" "is_digit py (s ! (k - 1))" by blast
  from rx_match_consumes [OF assms(2)] obtain j where
    j: "j \<le> length s" "t = drop j s" "\<forall>x\<in>set (take j s). x \<in> alpha r \<or> is_digit py x" by blast
  from k j have "k = j" by (auto dest: drop_eq_drop)
  with j al have w: "\<forall>x\<in>set (take k s). wordc x \<or> is_digit py x" by auto
  from k have "t \<noteq> s" by (auto dest: drop_eq_self)
  with rx_match_first [OF assms(2)] fo have "leader (hd s)" by auto
  with k w show ?thesis by blast
qed

text \<open>A text that starts with no leader, or that reaches a stop character before any
  digit, is matched by no tame pattern.\<close>

lemma tame_no_leader:
  "tame py r \<Longrightarrow> \<not> leader (hd s) \<Longrightarrow> \<not> hit py r s"
  by (auto elim!: hitE dest: tame_hit_shape)

lemma tame_stopped:
  assumes "tame py r" "\<forall>y\<in>set u. \<not> is_digit py y" "stops py x"
  shows "\<not> hit py r (u @ x # z)"
proof
  assume "hit py r (u @ x # z)"
  then obtain c t where "(c, t) \<in> set (rx_match py r Map.empty (u @ x # z))" by (rule hitE)
  from tame_hit_shape [OF assms(1) this] obtain k where
    k: "0 < k" "k \<le> length (u @ x # z)" "is_digit py ((u @ x # z) ! (k - 1))"
       "\<forall>y\<in>set (take k (u @ x # z)). wordc y \<or> is_digit py y" by blast
  consider "k - 1 < length u" | "k - 1 = length u" | "length u < k - 1" by linarith
  then show False
  proof cases
    case 1
    then have "(u @ x # z) ! (k - 1) \<in> set u" by (simp add: nth_append)
    with k assms(2) show False by blast
  next
    case 2
    then have "(u @ x # z) ! (k - 1) = x" by simp
    with k assms(3) show False by (simp add: stops_def)
  next
    case 3
    then have "x \<in> set (take k (u @ x # z))" by (auto simp: take_Cons')
    with k assms(3) show False by (auto simp: stops_def)
  qed
qed

section \<open>Texts of the safe shape\<close>

lemma leader_wordc: "leader x \<Longrightarrow> wordc x"
  by (cases x) auto

lemma not_leader_slash [simp]: "\<not> leader slash"
  by (simp add: slash_def)

lemma tame_not_Nil: "tame py r \<Longrightarrow> \<not> hit py r []"
  by (auto elim!: hitE dest!: tame_hit_shape)

lemma safe_out_inert:
  assumes t: "tame py r" and so: "safe_out py out" and q: "q < length out"
  shows "\<not> hit py r (drop q out @ w)"
proof -
  from so obtain A x B where o: "out = A @ x # B" and A: "\<forall>y\<in>set A. \<not> is_digit py y"
    and x: "stops py x" and B: "\<forall>y\<in>set B. \<not> leader y" by (auto simp: safe_out_def)
  show ?thesis
  proof (cases "q \<le> length A")
    case True
    then have "drop q out @ w = drop q A @ x # (B @ w)" by (simp add: o)
    moreover have "\<forall>y\<in>set (drop q A). \<not> is_digit py y" using A by (auto dest: in_set_dropD)
    ultimately show ?thesis using tame_stopped [OF t _ x] by simp
  next
    case False
    then obtain j where j: "q = length A + Suc j" by (metis add_Suc_right less_iff_Suc_add not_le)
    with q o have jl: "j < length B" by simp
    have d: "drop q out @ w = drop j B @ w" by (simp add: o j)
    from jl have "drop j B \<noteq> []" by simp
    then have "hd (drop j B @ w) = hd (drop j B)" by simp
    moreover have "hd (drop j B) \<in> set B" using jl by (metis hd_drop_conv_nth nth_mem)
    ultimately have "\<not> leader (hd (drop q out @ w))" using B d by simp
    with t show ?thesis by (rule tame_no_leader)
  qed
qed

lemma safe_out_back:
  assumes t: "tame py r" and so: "safe_out py out" and m: "m \<noteq> []" "hd m \<noteq> slash"
    and h: "hit py r (b @ out @ w)"
  shows "hit py r (b @ m @ w')"
proof -
  from so obtain A x B where o: "out = A @ x # B" and A: "\<forall>y\<in>set A. \<not> is_digit py y"
    and x: "stops py x" and ho: "hd out \<noteq> slash" by (auto simp: safe_out_def)
  let ?v = "b @ out @ w"
  from h obtain c u where cu: "(c, u) \<in> set (rx_match py r Map.empty ?v)" by (rule hitE)
  from tame_hit_shape [OF t cu] obtain k where
    k: "0 < k" "k \<le> length ?v" "u = drop k ?v" "is_digit py (?v ! (k - 1))"
       "\<forall>y\<in>set (take k ?v). wordc y \<or> is_digit py y" by blast
  have v: "?v = (b @ A) @ x # (B @ w)" by (simp add: o)
  have kb: "k \<le> length b"
  proof (rule ccontr)
    assume "\<not> k \<le> length b"
    then have lb: "length b \<le> k - 1" by simp
    consider "k - 1 < length (b @ A)" | "k - 1 = length (b @ A)" | "length (b @ A) < k - 1"
      by linarith
    then show False
    proof cases
      case 1
      from 1 lb have il: "k - 1 - length b < length A" by simp
      have "?v ! (k - 1) = (A @ x # B @ w) ! (k - 1 - length b)"
        using lb by (simp add: o nth_append)
      also have "\<dots> = A ! (k - 1 - length b)" using il by (simp add: nth_append)
      finally have "?v ! (k - 1) \<in> set A" using il by simp
      with k A show False by blast
    next
      case 2
      then have "?v ! (k - 1) = x" unfolding v by (metis nth_append_length)
      with k x show False by (simp add: stops_def)
    next
      case 3
      then have "length (b @ A) < k" by simp
      then have "x \<in> set (take k ?v)" unfolding v by (simp add: take_Cons' in_set_conv_decomp)
      with k x show False by (auto simp: stops_def)
    qed
  qed
  let ?v' = "b @ m @ w'"
  have tk: "take k ?v' = take k ?v" using kb by simp
  have le: "k \<le> length ?v'" using kb by simp
  have ah: "\<forall>y\<in>ahead r. prefix [y] (drop k ?v') = prefix [y] (drop k ?v)"
  proof
    fix y assume "y \<in> ahead r"
    with t have y: "y = slash" by (auto simp: tame_def slash_def)
    show "prefix [y] (drop k ?v') = prefix [y] (drop k ?v)"
    proof (cases "k < length b")
      case True
      then have e: "?v' ! k = ?v ! k" by (simp add: nth_append)
      have l: "k < length ?v'" "k < length ?v" using True by simp_all
      show ?thesis
        unfolding prefix_single_drop [OF l(1)] prefix_single_drop [OF l(2)] e ..
    next
      case False
      with kb have "k = length b" by simp
      then have "drop k ?v' = m @ w'" "drop k ?v = out @ w" by simp_all
      moreover have "out \<noteq> []" by (simp add: o)
      ultimately show ?thesis using m ho y
        by (cases m; cases out) auto
    qed
  qed
  from cu k have "(c, drop k ?v) \<in> set (rx_match py r Map.empty ?v)" by simp
  from rx_match_local [OF this k(2) tk le ah] show ?thesis by (rule hitI)
qed

section \<open>Properties of re.sub and str.replace\<close>

declare py_sub.simps [simp del] py_replace.simps [simp del]

lemma map_sum_Inr_iff: "map_sum id f r = Inr t \<longleftrightarrow> (\<exists>u. r = Inr u \<and> t = f u)"
  by (cases r) auto

lemma py_sub_nomatch_Nil:
  "rx_match py r Map.empty [] = [] \<Longrightarrow> py_sub py r repl [] = Inr []"
  by (subst py_sub.simps) simp

lemma py_sub_nomatch_Cons:
  "rx_match py r Map.empty (x # xs) = [] \<Longrightarrow>
     py_sub py r repl (x # xs) = map_sum id ((#) x) (py_sub py r repl xs)"
  by (subst py_sub.simps) simp

lemma py_sub_match:
  "rx_match py r Map.empty s = (c, s1) # rest \<Longrightarrow> length s1 < length s \<Longrightarrow>
     py_sub py r repl s =
       (case repl \<lparr>group0 = take (length s - length s1) s, groups = c\<rparr> of
          Inl e \<Rightarrow> Inl e
        | Inr out \<Rightarrow> map_sum id ((@) out) (py_sub py r repl s1))"
  by (subst py_sub.simps) (simp split: sum.splits)

lemma tame_first_match:
  assumes "tame py r" "rx_match py r Map.empty s = (c, s1) # rest"
  shows "length s1 < length s \<and> s = take (length s - length s1) s @ s1
         \<and> take (length s - length s1) s \<noteq> [] \<and> hd (take (length s - length s1) s) \<noteq> slash"
proof -
  from assms(2) have "(c, s1) \<in> set (rx_match py r Map.empty s)" by simp
  from tame_hit_shape [OF assms(1) this] obtain k where
    k: "0 < k" "k \<le> length s" "s1 = drop k s" "leader (hd s)" by blast
  then have l: "length s - length s1 = k" by simp
  from k have "s \<noteq> []" by auto
  with k have "hd (take k s) = hd s" by (cases s; cases k) auto
  moreover from k have "hd s \<noteq> slash" by auto
  ultimately show ?thesis unfolding l using k by auto
qed

lemma py_sub_free:
  assumes tr: "tame py r" and tr': "tame py r'"
    and pairs: "\<And>s c s1 rest out. rx_match py r Map.empty s = (c, s1) # rest \<Longrightarrow>
        repl \<lparr>group0 = take (length s - length s1) s, groups = c\<rparr> = Inr out \<Longrightarrow> safe_out py out"
  shows "py_sub py r repl s = Inr t \<Longrightarrow>
         (\<forall>n. hit py r' (drop n s) \<longrightarrow> hit py r (drop n s)) \<Longrightarrow>
         (\<forall>q<length a. \<not> hit py r' (drop q a @ s)) \<Longrightarrow> free py r' (a @ t)"
proof (induction s arbitrary: a t rule: length_induct)
  case (1 s)
  note IH = 1(1) [rule_format] and res = 1(2) and dom = 1(3) [rule_format] and pre = 1(4) [rule_format]
  show ?case
  proof (cases "rx_match py r Map.empty s")
    case Nil
    then have nh: "\<not> hit py r s" by (simp add: hit_def)
    with dom [of 0] have nh': "\<not> hit py r' s" by auto
    show ?thesis
    proof (cases s)
      case Nil
      with res \<open>rx_match py r Map.empty s = []\<close> have t: "t = []"
        by (simp add: py_sub_nomatch_Nil)
      show ?thesis unfolding free_def
      proof (intro allI)
        fix n
        show "\<not> hit py r' (drop n (a @ t))"
        proof (cases "n < length a")
          case True
          with pre [of n] Nil t show ?thesis by simp
        next
          case False
          with t have "drop n (a @ t) = []" by simp
          with tame_not_Nil [OF tr'] show ?thesis by simp
        qed
      qed
    next
      case (Cons x xs)
      with res \<open>rx_match py r Map.empty s = []\<close> obtain t' where
        t': "py_sub py r repl xs = Inr t'" "t = x # t'"
        by (auto simp: py_sub_nomatch_Cons map_sum_Inr_iff)
      have d: "\<forall>n. hit py r' (drop n xs) \<longrightarrow> hit py r (drop n xs)"
        using dom [of "Suc _"] Cons by simp
      have p: "\<forall>q<length (a @ [x]). \<not> hit py r' (drop q (a @ [x]) @ xs)"
      proof (intro allI impI)
        fix q assume "q < length (a @ [x])"
        then consider "q < length a" | "q = length a" by fastforce
        then show "\<not> hit py r' (drop q (a @ [x]) @ xs)"
        proof cases
          case 1
          with pre [of q] Cons show ?thesis by simp
        next
          case 2
          with nh' Cons show ?thesis by simp
        qed
      qed
      have "length xs < length s" using Cons by simp
      from IH [OF this t'(1) d [rule_format] p [rule_format]] t' show ?thesis by simp
    qed
  next
    case (Cons cs rest)
    obtain c s1 where cs: "cs = (c, s1)" by (cases cs)
    with Cons have m: "rx_match py r Map.empty s = (c, s1) # rest" by simp
    let ?m = "take (length s - length s1) s"
    from tame_first_match [OF tr m] have sh: "length s1 < length s" "s = ?m @ s1"
      "?m \<noteq> []" "hd ?m \<noteq> slash" by blast+
    from res obtain out t' where
      out: "repl \<lparr>group0 = ?m, groups = c\<rparr> = Inr out"
         "py_sub py r repl s1 = Inr t'" "t = out @ t'"
      by (auto simp: py_sub_match [OF m sh(1)] map_sum_Inr_iff split: sum.splits)
    from pairs [OF m out(1)] have so: "safe_out py out" .
    have d: "\<forall>n. hit py r' (drop n s1) \<longrightarrow> hit py r (drop n s1)"
    proof (intro allI)
      fix n
      have "drop n s1 = drop (length ?m + n) s"
        by (subst (2) sh(2)) (simp only: drop_append length_take, simp add: add.commute)
      with dom [of "length ?m + n"] show "hit py r' (drop n s1) \<longrightarrow> hit py r (drop n s1)"
        by simp
    qed
    have p: "\<forall>q<length (a @ out). \<not> hit py r' (drop q (a @ out) @ s1)"
    proof (intro allI impI)
      fix q assume q: "q < length (a @ out)"
      show "\<not> hit py r' (drop q (a @ out) @ s1)"
      proof (cases "q < length a")
        case True
        have "\<not> hit py r' (drop q a @ ?m @ s1)" using pre [OF True] sh(2) by simp
        with safe_out_back [OF tr' so sh(3,4), of "drop q a" s1 s1]
        have "\<not> hit py r' (drop q a @ out @ s1)" by blast
        with True show ?thesis by simp
      next
        case False
        with q have "q - length a < length out" by simp
        from safe_out_inert [OF tr' so this, of s1] False show ?thesis by simp
      qed
    qed
    from IH [OF sh(1) out(2) d [rule_format] p [rule_format]] out(3) show ?thesis by simp
  qed
qed

lemma py_sub_id:
  "free py r t \<Longrightarrow> py_sub py r repl t = Inr t"
proof (induction t)
  case Nil
  then have "rx_match py r Map.empty [] = []" using free_def [of py r "[]"] by (simp add: hit_def)
  then show ?case by (rule py_sub_nomatch_Nil)
next
  case (Cons x xs)
  from Cons.prems have "\<not> hit py r (drop 0 (x # xs))" unfolding free_def by blast
  then have n: "rx_match py r Map.empty (x # xs) = []" by (simp add: hit_def)
  have "free py r xs" unfolding free_def
  proof
    fix n
    from Cons.prems have "\<not> hit py r (drop (Suc n) (x # xs))" unfolding free_def by blast
    then show "\<not> hit py r (drop n xs)" by simp
  qed
  with Cons.IH have "py_sub py r repl xs = Inr xs" by simp
  with n show ?case by (simp add: py_sub_nomatch_Cons)
qed

lemma py_replace_Nil: "old \<noteq> [] \<Longrightarrow> py_replace old new [] = []"
  by (subst py_replace.simps) simp

lemma py_replace_hit:
  "old \<noteq> [] \<Longrightarrow> prefix old s \<Longrightarrow>
     py_replace old new s = new @ py_replace old new (drop (length old) s)"
  by (subst py_replace.simps) simp

lemma py_replace_skip:
  "old \<noteq> [] \<Longrightarrow> \<not> prefix old (x # xs) \<Longrightarrow>
     py_replace old new (x # xs) = x # py_replace old new xs"
  by (subst py_replace.simps) simp

lemma py_replace_free:
  assumes tr': "tame py r'" and so: "safe_out py new" and old: "old \<noteq> []" "hd old \<noteq> slash"
  shows "(\<forall>n. \<not> hit py r' (drop n s)) \<Longrightarrow>
         (\<forall>q<length a. \<not> hit py r' (drop q a @ s)) \<Longrightarrow> free py r' (a @ py_replace old new s)"
proof (induction s arbitrary: a rule: length_induct)
  case (1 s)
  note IH = 1(1) [rule_format] and fr = 1(2) [rule_format] and pre = 1(3) [rule_format]
  show ?case
  proof (cases "prefix old s")
    case True
    then obtain s1 where s: "s = old @ s1" by (auto simp: prefix_def)
    then have r: "py_replace old new s = new @ py_replace old new s1"
      using py_replace_hit [OF old(1) True] by simp
    have l: "length s1 < length s" using s old by simp
    have f: "\<forall>n. \<not> hit py r' (drop n s1)"
    proof
      fix n
      have "drop n s1 = drop (length old + n) s" by (simp add: s add.commute)
      with fr [of "length old + n"] show "\<not> hit py r' (drop n s1)" by simp
    qed
    have p: "\<forall>q<length (a @ new). \<not> hit py r' (drop q (a @ new) @ s1)"
    proof (intro allI impI)
      fix q assume q: "q < length (a @ new)"
      show "\<not> hit py r' (drop q (a @ new) @ s1)"
      proof (cases "q < length a")
        case True
        have "\<not> hit py r' (drop q a @ old @ s1)" using pre [OF True] s by simp
        with safe_out_back [OF tr' so old, of "drop q a" s1 s1]
        have "\<not> hit py r' (drop q a @ new @ s1)" by blast
        with True show ?thesis by simp
      next
        case False
        with q have "q - length a < length new" by simp
        from safe_out_inert [OF tr' so this, of s1] False show ?thesis by simp
      qed
    qed
    from IH [OF l f [rule_format] p [rule_format]] r show ?thesis by simp
  next
    case False
    show ?thesis
    proof (cases s)
      case Nil
      show ?thesis unfolding free_def
      proof (intro allI)
        fix n
        show "\<not> hit py r' (drop n (a @ py_replace old new s))"
        proof (cases "n < length a")
          case True
          with pre [of n] Nil show ?thesis by (simp add: py_replace_Nil [OF old(1)])
        next
          case False
          then have "drop n (a @ py_replace old new s) = []"
            by (simp add: Nil py_replace_Nil [OF old(1)])
          with tame_not_Nil [OF tr'] show ?thesis by simp
        qed
      qed
    next
      case (Cons x xs)
      with False have r: "py_replace old new s = x # py_replace old new xs"
        by (simp add: py_replace_skip [OF old(1)])
      have f: "\<forall>n. \<not> hit py r' (drop n xs)" using fr [of "Suc _"] Cons by simp
      have p: "\<forall>q<length (a @ [x]). \<not> hit py r' (drop q (a @ [x]) @ xs)"
      proof (intro allI impI)
        fix q assume "q < length (a @ [x])"
        then consider "q < length a" | "q = length a" by fastforce
        then show "\<not> hit py r' (drop q (a @ [x]) @ xs)"
        proof cases
          case 1
          with pre [of q] Cons show ?thesis by simp
        next
          case 2
          with fr [of 0] Cons show ?thesis by simp
        qed
      qed
      have "length xs < length s" using Cons by simp
      from IH [OF this f [rule_format] p [rule_format]] r show ?thesis by simp
    qed
  qed
qed

lemma prefix_into:
  assumes "prefix h (b @ new @ w)" "new \<noteq> []" "hd new \<notin> set h"
  shows "prefix h b"
proof (rule ccontr)
  assume n: "\<not> prefix h b"
  have lt: "length b < length h"
  proof (rule ccontr)
    assume "\<not> length b < length h"
    then have "length h \<le> length b" by simp
    moreover from assms(1) obtain z where "b @ new @ w = h @ z" by (auto simp: prefix_def)
    ultimately have "take (length h) b = h" by (metis append_eq_conv_conj take_append diff_is_0_eq take_0 append_Nil2)
    then have "prefix h b" by (metis take_is_prefix)
    with n show False by simp
  qed
  from assms(1) obtain z where z: "b @ new @ w = h @ z" by (auto simp: prefix_def)
  then have "(b @ new @ w) ! length b = (h @ z) ! length b" by simp
  with lt assms(2) have "hd new = h ! length b" by (cases new) (simp_all add: nth_append)
  with lt assms(3) show False by simp
qed

lemma py_replace_absent:
  assumes old: "old \<noteq> []" and h: "h \<noteq> []" and new: "new \<noteq> []" "hd new \<notin> set h" "hd h \<notin> set new"
  shows "(h \<noteq> old \<longrightarrow> (\<forall>n. \<not> prefix h (drop n s))) \<Longrightarrow>
         (\<forall>q<length a. \<not> prefix h (drop q a @ s)) \<Longrightarrow> absent h (a @ py_replace old new s)"
proof (induction s arbitrary: a rule: length_induct)
  case (1 s)
  note IH = 1(1) [rule_format] and fr = 1(2) [rule_format] and pre = 1(3) [rule_format]
  show ?case
  proof (cases "prefix old s")
    case True
    then obtain s1 where s: "s = old @ s1" by (auto simp: prefix_def)
    then have r: "py_replace old new s = new @ py_replace old new s1"
      using py_replace_hit [OF old True] by simp
    have l: "length s1 < length s" using s old by simp
    have f: "h \<noteq> old \<longrightarrow> (\<forall>n. \<not> prefix h (drop n s1))"
    proof (intro impI allI)
      fix n assume "h \<noteq> old"
      have "drop n s1 = drop (length old + n) s" by (simp add: s add.commute)
      with fr [OF \<open>h \<noteq> old\<close>, of "length old + n"] show "\<not> prefix h (drop n s1)" by simp
    qed
    have p: "\<forall>q<length (a @ new). \<not> prefix h (drop q (a @ new) @ s1)"
    proof (intro allI impI)
      fix q assume q: "q < length (a @ new)"
      show "\<not> prefix h (drop q (a @ new) @ s1)"
      proof (cases "q < length a")
        case True
        have n: "\<not> prefix h (drop q a @ old @ s1)" using pre [OF True] s by simp
        have "\<not> prefix h (drop q a @ new @ s1)"
        proof
          assume "prefix h (drop q a @ new @ s1)"
          from prefix_into [OF this new(1,2)] have "prefix h (drop q a)" .
          then have "prefix h (drop q a @ old @ s1)" by (rule prefix_prefix)
          with n show False by simp
        qed
        with True show ?thesis by simp
      next
        case False
        with q have j: "q - length a < length new" by simp
        then have "drop (q - length a) new \<noteq> []" by simp
        moreover have "hd (drop (q - length a) new) \<in> set new"
          using j by (metis hd_drop_conv_nth nth_mem)
        ultimately have "\<not> prefix h (drop (q - length a) new @ s1)"
          using new(3) h by (cases h; cases "drop (q - length a) new") auto
        with False show ?thesis by simp
      qed
    qed
    from IH [OF l f [rule_format] p [rule_format]] r show ?thesis by simp
  next
    case False
    show ?thesis
    proof (cases s)
      case Nil
      show ?thesis unfolding absent_def
      proof (intro allI)
        fix n
        show "\<not> prefix h (drop n (a @ py_replace old new s))"
        proof (cases "n < length a")
          case True
          with pre [of n] Nil show ?thesis by (simp add: py_replace_Nil [OF old])
        next
          case False
          then have "drop n (a @ py_replace old new s) = []"
            by (simp add: Nil py_replace_Nil [OF old])
          with h show ?thesis by simp
        qed
      qed
    next
      case (Cons x xs)
      with False have r: "py_replace old new s = x # py_replace old new xs"
        by (simp add: py_replace_skip [OF old])
      have nh: "\<not> prefix h s"
      proof (cases "h = old")
        case True with False show ?thesis by simp
      next
        case False with fr [of 0] show ?thesis by simp
      qed
      have f: "h \<noteq> old \<longrightarrow> (\<forall>n. \<not> prefix h (drop n xs))"
        using fr [of "Suc _"] Cons by simp
      have p: "\<forall>q<length (a @ [x]). \<not> prefix h (drop q (a @ [x]) @ xs)"
      proof (intro allI impI)
        fix q assume "q < length (a @ [x])"
        then consider "q < length a" | "q = length a" by fastforce
        then show "\<not> prefix h (drop q (a @ [x]) @ xs)"
        proof cases
          case 1
          with pre [of q] Cons show ?thesis by simp
        next
          case 2
          with nh Cons show ?thesis by simp
        qed
      qed
      have "length xs < length s" using Cons by simp
      from IH [OF this f [rule_format] p [rule_format]] r show ?thesis by simp
    qed
  qed
qed

lemma py_replace_id:
  "old \<noteq> [] \<Longrightarrow> absent old s \<Longrightarrow> py_replace old new s = s"
proof (induction s)
  case Nil
  then show ?case by (simp add: py_replace_Nil)
next
  case (Cons x xs)
  from Cons.prems(2) have "\<not> prefix old (drop 0 (x # xs))" unfolding absent_def by blast
  then have n: "\<not> prefix old (x # xs)" by simp
  have "absent old xs" unfolding absent_def
  proof
    fix n
    from Cons.prems(2) have "\<not> prefix old (drop (Suc n) (x # xs))" unfolding absent_def by blast
    then show "\<not> prefix old (drop n xs)" by simp
  qed
  with Cons have "py_replace old new xs = xs" by simp
  with n Cons.prems(1) show ?case by (simp add: py_replace_skip)
qed

section \<open>The patterns and the helpers of the script\<close>

lemma is_digit_lit: "(\<forall>y\<in>set (lit s). \<not> is_digit py y) \<longleftrightarrow> (\<forall>c\<in>set s. c \<notin> set ''0123456789'')"
  by (simp add: lit_def)

lemma wordc_lit: "(\<forall>y\<in>set (lit s). wordc y) \<longleftrightarrow> (\<forall>c\<in>set s. c \<in> set ''abcdefghijklmnopqrstuvwxyz-:/'')"
  by (simp add: lit_def)

lemma leader_lit: "(\<forall>y\<in>set (lit s). \<not> leader y) \<longleftrightarrow> (\<forall>c\<in>set s. c \<notin> set ''hdfabtr'')"
  by (simp add: lit_def)

lemma hd_lit: "s \<noteq> [] \<Longrightarrow> hd (lit s) = Chr (hd s)"
  by (cases s) (simp_all add: lit_def)

lemma alpha_colors: "\<forall>x\<in>alpha colors_rx. wordc x"
  by (simp add: colors_rx_def ALL_COLORS_PLUS_GRAY_eq ball_Un wordc_lit)

lemma ahead_colors [simp]: "ahead colors_rx = {}"
  by (simp add: colors_rx_def)

lemma ends_digit_colors [simp]: "\<not> ends_digit colors_rx" "\<not> zero_width colors_rx"
  by (simp_all add: colors_rx_def ALL_COLORS_PLUS_GRAY_eq)

lemma tame_bg_opacity: "tame py bg_opacity_rx"
  using alpha_colors
  by (auto simp: tame_def bg_opacity_rx_def lit_def)

lemma tame_border_opacity: "tame py border_opacity_rx"
  using alpha_colors
  by (auto simp: tame_def border_opacity_rx_def lit_def)

lemma tame_hover_bg_opacity: "tame py hover_bg_opacity_rx"
  using alpha_colors
  by (auto simp: tame_def hover_bg_opacity_rx_def lit_def)

lemma tame_text: "tame py text_rx"
  using alpha_colors
  by (auto simp: tame_def text_rx_def prefix_rx_def lit_def)

lemma tame_bg_solid: "tame py bg_solid_rx"
  using alpha_colors
  by (auto simp: tame_def bg_solid_rx_def prefix_rx_def lit_def)

lemma tame_border: "tame py border_rx"
  using alpha_colors
  by (auto simp: tame_def border_rx_def lit_def)

lemma tame_ring: "tame py ring_rx"
  using alpha_colors
  by (auto simp: tame_def ring_rx_def prefix_rx_def lit_def)

lemma inertc_Chr: "inertc py (Chr c) \<longleftrightarrow> c \<notin> set ''0123456789/''"
  by (simp add: inertc_def slash_def)

lemma inertc_lit:
  "(\<forall>y\<in>set (lit s). inertc py y) \<longleftrightarrow> (\<forall>c\<in>set s. c \<notin> set ''0123456789/'')"
  unfolding lit_def set_map ball_simps(9) inertc_Chr ..

lemma safe_outI:
  assumes "\<forall>y\<in>set A. inertc py y" "stops py x" "\<forall>y\<in>set B. \<not> leader y"
  shows "safe_out py (A @ x # B)"
proof -
  have "x \<noteq> slash" using assms(2) by (auto simp: stops_def slash_def)
  then have "hd (A @ x # B) \<noteq> slash" using assms(1) by (cases A) (auto simp: inertc_def)
  moreover have "\<forall>y\<in>set A. \<not> is_digit py y" using assms(1) by (simp add: inertc_def)
  ultimately show ?thesis unfolding safe_out_def using assms(2,3) by blast
qed

lemma stops_bracket [simp]: "stops py (Chr CHR '']'')" "stops py (Chr CHR ''('')"
  by (simp_all add: stops_def)

lemma lit_append: "lit (a @ b) = lit a @ lit b"
  by (simp add: lit_def)

lemma lit_single: "lit [c] = [Chr c]"
  by (simp add: lit_def)

lemma safe_out_var:
  assumes "\<forall>y\<in>set pre. inertc py y" "\<forall>c\<in>set kw. c \<notin> set ''0123456789/''"
    "\<forall>y\<in>set sem. inertc py y"
  shows "safe_out py (pre @ lit kw @ sem @ lit '')]'')"
proof -
  have e: "pre @ lit kw @ sem @ lit '')]'' = (pre @ lit kw @ sem @ [Chr CHR '')'']) @ Chr CHR '']'' # []"
    by (simp add: lit_def)
  have k: "\<forall>y\<in>set (lit kw). inertc py y" using assms(2) by (simp only: inertc_lit)
  have p: "inertc py (Chr CHR '')'')" by (simp add: inertc_Chr)
  have "\<forall>y\<in>set (pre @ lit kw @ sem @ [Chr CHR '')'']). inertc py y"
    using assms(1,3) k p by (simp add: ball_Un)
  then have "safe_out py ((pre @ lit kw @ sem @ [Chr CHR '')'']) @ Chr CHR '']'' # [])"
    by (rule safe_outI) simp_all
  then show ?thesis by (simp only: e)
qed

lemma safe_out_var0:
  assumes "\<forall>y\<in>set pre. inertc py y" "\<forall>c\<in>set kw. c \<notin> set ''0123456789/''"
  shows "safe_out py (pre @ lit (kw @ '')]''))"
proof -
  have "safe_out py (pre @ lit kw @ [] @ lit '')]'')"
    by (rule safe_out_var [OF assms]) simp
  then show ?thesis by (simp add: lit_append)
qed

lemma safe_out_rgba:
  assumes "\<forall>c\<in>set kw. c \<notin> set ''0123456789/''" "\<forall>y\<in>set rgba. \<not> leader y"
    "set repr \<subseteq> set ''0123456789.e+-''"
  shows "safe_out py (lit (kw @ ''('') @ rgba @ lit '','' @ lit repr @ lit '')]'')"
proof -
  have e: "lit (kw @ ''('') @ rgba @ lit '','' @ lit repr @ lit '')]''
      = lit kw @ Chr CHR ''('' # (rgba @ lit '','' @ lit repr @ lit '')]'')"
    by (simp add: lit_def)
  have k: "\<forall>y\<in>set (lit kw). inertc py y" using assms(1) by (simp only: inertc_lit)
  have "\<forall>c\<in>set repr. c \<notin> set ''hdfabtr''"
  proof
    fix c assume "c \<in> set repr"
    with assms(3) have "c \<in> set ''0123456789.e+-''" by blast
    then show "c \<notin> set ''hdfabtr''" by auto
  qed
  then have r: "\<forall>y\<in>set (lit repr). \<not> leader y" by (simp only: leader_lit)
  have c: "\<forall>y\<in>set (lit '',''). \<not> leader y" "\<forall>y\<in>set (lit '')]''). \<not> leader y"
    by (simp_all add: leader_lit)
  have "\<forall>y\<in>set (rgba @ lit '','' @ lit repr @ lit '')]''). \<not> leader y"
    using assms(2) r c by (simp add: ball_Un)
  with k have "safe_out py (lit kw @ Chr CHR ''('' # (rgba @ lit '','' @ lit repr @ lit '')]''))"
    by (intro safe_outI) simp_all
  then show ?thesis by (simp only: e)
qed

lemma dict_get_Some:
  assumes "dict_get d k = Some v"
  shows "\<exists>e\<in>set d. v = lit (snd e)"
proof (cases k)
  case None
  with assms show ?thesis by (simp add: dict_get_def)
next
  case (Some key)
  with assms obtain e where f: "find (\<lambda>(k', v). lit k' = key) d = Some e" and v: "v = lit (snd e)"
    by (auto simp: dict_get_def)
  from f obtain i where "i < length d" "e = d ! i" unfolding find_Some_iff by blast
  then have "e \<in> set d" by simp
  with v show ?thesis by blast
qed

lemma COLOR_SEMANTIC_values:
  "\<forall>e\<in>set COLOR_SEMANTIC. \<forall>c\<in>set (snd e). c \<notin> set ''0123456789/''"
  by (simp add: COLOR_SEMANTIC_def)

lemma COLOR_RGBA_values:
  "\<forall>e\<in>set COLOR_RGBA. \<forall>c\<in>set (snd e). c \<notin> set ''hdfabtr''"
  by (simp add: COLOR_RGBA_def)

lemma get_semantic_inertc: "\<forall>y\<in>set (get_semantic g). inertc py y"
proof (cases "dict_get COLOR_SEMANTIC g")
  case None
  have "\<forall>y\<in>set (lit ''info''). inertc py y" unfolding inertc_lit by simp
  with None show ?thesis by (simp add: get_semantic_def)
next
  case (Some v)
  from dict_get_Some [OF this] obtain e where e: "e \<in> set COLOR_SEMANTIC" "v = lit (snd e)" by blast
  from e(1) COLOR_SEMANTIC_values have "\<forall>c\<in>set (snd e). c \<notin> set ''0123456789/''"
    by blast
  then have "\<forall>y\<in>set (lit (snd e)). inertc py y" by (simp only: inertc_lit)
  with e Some show ?thesis by (simp add: get_semantic_def)
qed

lemma COLOR_RGBA_no_leader:
  assumes "dict_get COLOR_RGBA k = Some rgba"
  shows "\<forall>y\<in>set rgba. \<not> leader y"
proof -
  from dict_get_Some [OF assms] obtain e where e: "e \<in> set COLOR_RGBA" "rgba = lit (snd e)" by blast
  from e(1) COLOR_RGBA_values have "\<forall>c\<in>set (snd e). c \<notin> set ''hdfabtr''" by blast
  then have "\<forall>y\<in>set (lit (snd e)). \<not> leader y" by (simp only: leader_lit)
  with e show ?thesis by simp
qed

text \<open>The first group of a pattern with an optional prefix.\<close>

lemma prefix_rx_group:
  assumes "(c1, s1) \<in> set (rx_match py (prefix_rx ps) Map.empty s)"
  shows "or_empty (c1 1) \<in> insert [] (set (map lit ps))"
proof -
  let ?O = "OneOf (map lit ps)"
  from assms have "(c1, s1) \<in> set (rx_match py (Grp 1 (Opt ?O)) Map.empty s) \<or> c1 = Map.empty"
    unfolding prefix_rx_def in_Opt by blast
  then show ?thesis
  proof
    assume "c1 = Map.empty"
    then show ?thesis by (simp add: or_empty_def)
  next
    assume "(c1, s1) \<in> set (rx_match py (Grp 1 (Opt ?O)) Map.empty s)"
    then obtain c0 where c0: "(c0, s1) \<in> set (rx_match py (Opt ?O) Map.empty s)"
      and c1: "c1 = c0(1 \<mapsto> take (length s - length s1) s)" unfolding in_Grp by blast
    from c0 have "(c0, s1) \<in> set (rx_match py ?O Map.empty s) \<or> s1 = s"
      unfolding in_Opt by blast
    then have "take (length s - length s1) s \<in> insert [] (set (map lit ps))"
    proof
      assume "s1 = s"
      then show ?thesis by simp
    next
      assume "(c0, s1) \<in> set (rx_match py ?O Map.empty s)"
      then obtain l where l: "l \<in> set (map lit ps)" "prefix l s" "s1 = drop (length l) s"
        unfolding in_OneOf by blast
      from l(2) obtain z where "s = l @ z" by (auto simp: prefix_def)
      with l(3) have "take (length s - length s1) s = l" by simp
      with l(1) show ?thesis by simp
    qed
    with c1 show ?thesis by (simp add: or_empty_def)
  qed
qed

lemma prefix_group:
  assumes "(c', t) \<in> set (rx_match py (Cat (prefix_rx ps) R) Map.empty s)" "1 \<notin> groups_of R"
  shows "or_empty (c' 1) \<in> insert [] (set (map lit ps))"
proof -
  from assms(1) obtain c1 s1 where 1: "(c1, s1) \<in> set (rx_match py (prefix_rx ps) Map.empty s)"
    and 2: "(c', t) \<in> set (rx_match py R c1 s1)" unfolding in_Cat by blast
  from rx_match_frame [OF 2 assms(2)] have "c' 1 = c1 1" .
  with prefix_rx_group [OF 1] show ?thesis by simp
qed

lemma prefix_inertc:
  assumes "pre \<in> insert [] (set (map lit ps))" "\<forall>p\<in>set ps. \<forall>c\<in>set p. c \<notin> set ''0123456789/''"
  shows "\<forall>y\<in>set pre. inertc py y"
proof (cases "pre = []")
  case True
  then show ?thesis by simp
next
  case False
  with assms(1) obtain p where p: "p \<in> set ps" "pre = lit p" by auto
  with assms(2) have "\<forall>c\<in>set p. c \<notin> set ''0123456789/''" by blast
  then have "\<forall>y\<in>set (lit p). inertc py y" by (simp only: inertc_lit)
  with p show ?thesis by simp
qed

lemma bind_Inr_iff: "bind r k = Inr y \<longleftrightarrow> (\<exists>v. r = Inr v \<and> k v = Inr y)"
  by (cases r) (simp_all add: bind_def)

lemma opacity_safe:
  assumes ok: "repr_ok py" and cov: "covered py r repl (kw @ ''('')"
    and kw: "\<forall>c\<in>set kw. c \<notin> set ''0123456789/''"
    and m: "rx_match py r Map.empty s = (c, s1) # rest"
    and out: "repl \<lparr>group0 = take (length s - length s1) s, groups = c\<rparr> = Inr out"
  shows "safe_out py out"
proof -
  from m have "(c, s1) \<in> set (rx_match py r Map.empty s)" by simp
  with cov obtain rgba where rg: "dict_get COLOR_RGBA (c 1) = Some rgba"
    and e: "repl \<lparr>group0 = take (length s - length s1) s, groups = c\<rparr>
             = bind (py_int py (c 3)) (\<lambda>n. bind (py_div100 py n) (\<lambda>opacity.
                 Inr (lit (kw @ ''('') @ rgba @ lit '','' @ opacity @ lit '')]'')))"
    unfolding covered_def by blast
  from e out have "bind (py_int py (c 3)) (\<lambda>n. bind (py_div100 py n) (\<lambda>opacity.
                 Inr (lit (kw @ ''('') @ rgba @ lit '','' @ opacity @ lit '')]''))) = Inr out"
    by simp
  then obtain n opacity where d: "py_div100 py n = Inr opacity"
    and o: "out = lit (kw @ ''('') @ rgba @ lit '','' @ opacity @ lit '')]''"
    unfolding bind_Inr_iff by auto
  from d obtain repr where r: "div100_repr py n = Some repr" "opacity = lit repr"
    by (auto simp: py_div100_def split: option.splits)
  from ok r(1) have "set repr \<subseteq> set ''0123456789.e+-''" unfolding repr_ok_def by blast
  from safe_out_rgba [OF kw COLOR_RGBA_no_leader [OF rg] this] o r(2) show ?thesis by simp
qed

lemma bg_opacity_safe:
  assumes "repr_ok py" "rx_match py bg_opacity_rx Map.empty s = (c, s1) # rest"
    "replace_bg_opacity py \<lparr>group0 = take (length s - length s1) s, groups = c\<rparr> = Inr out"
  shows "safe_out py out"
proof -
  have "covered py bg_opacity_rx (opacity_rewrite py (''bg-[rgba'' @ ''('')) (''bg-[rgba'' @ ''('')"
    by (rule covered_opacity) (simp add: bg_opacity_rx_def)
  moreover have "replace_bg_opacity py = opacity_rewrite py (''bg-[rgba'' @ ''('')"
    by (simp add: fun_eq_iff replace_bg_opacity_def opacity_rewrite_def)
  ultimately have "covered py bg_opacity_rx (replace_bg_opacity py) (''bg-[rgba'' @ ''('')" by simp
  from opacity_safe [OF assms(1) this _ assms(2,3)] show ?thesis by simp
qed

lemma border_opacity_safe:
  assumes "repr_ok py" "rx_match py border_opacity_rx Map.empty s = (c, s1) # rest"
    "replace_border_opacity py \<lparr>group0 = take (length s - length s1) s, groups = c\<rparr> = Inr out"
  shows "safe_out py out"
proof -
  have "covered py border_opacity_rx (opacity_rewrite py (''border-[rgba'' @ ''('')) (''border-[rgba'' @ ''('')"
    by (rule covered_opacity) (simp add: border_opacity_rx_def)
  moreover have "replace_border_opacity py = opacity_rewrite py (''border-[rgba'' @ ''('')"
    by (simp add: fun_eq_iff replace_border_opacity_def opacity_rewrite_def)
  ultimately have "covered py border_opacity_rx (replace_border_opacity py) (''border-[rgba'' @ ''('')" by simp
  from opacity_safe [OF assms(1) this _ assms(2,3)] show ?thesis by simp
qed

lemma hover_bg_opacity_safe:
  assumes "repr_ok py" "rx_match py hover_bg_opacity_rx Map.empty s = (c, s1) # rest"
    "replace_hover_bg_opacity py \<lparr>group0 = take (length s - length s1) s, groups = c\<rparr> = Inr out"
  shows "safe_out py out"
proof -
  have "covered py hover_bg_opacity_rx (opacity_rewrite py (''hover:bg-[rgba'' @ ''('')) (''hover:bg-[rgba'' @ ''('')"
    by (rule covered_opacity) (simp add: hover_bg_opacity_rx_def)
  moreover have "replace_hover_bg_opacity py = opacity_rewrite py (''hover:bg-[rgba'' @ ''('')"
    by (simp add: fun_eq_iff replace_hover_bg_opacity_def opacity_rewrite_def)
  ultimately have "covered py hover_bg_opacity_rx (replace_hover_bg_opacity py) (''hover:bg-[rgba'' @ ''('')" by simp
  from opacity_safe [OF assms(1) this _ assms(2,3)] show ?thesis by simp
qed

lemma group_pos: "0 < i \<Longrightarrow> group \<lparr>group0 = g, groups = c\<rparr> i = c i"
  by (simp add: group_def)

lemma text_safe:
  assumes m: "rx_match py text_rx Map.empty s = (c, s1) # rest"
    and out: "replace_text py \<lparr>group0 = g, groups = c\<rparr> = Inr out"
  shows "safe_out py out"
proof -
  let ?pre = "or_empty (c 1)"
  from m have "(c, s1) \<in> set (rx_match py text_rx Map.empty s)" by simp
  then have "(c, s1) \<in> set (rx_match py (Cat (prefix_rx [''hover:'', ''dark:'', ''focus:''])
      (cat [Lit (lit ''text-''), Grp 2 colors_rx, Lit (lit ''-''), Grp 3 Digits1])) Map.empty s)"
    by (simp add: text_rx_def)
  then have "?pre \<in> insert [] (set (map lit [''hover:'', ''dark:'', ''focus:'']))"
    by (rule prefix_group) (simp add: colors_rx_def)
  then have pre: "\<forall>y\<in>set ?pre. inertc py y" by (rule prefix_inertc) simp
  have a: "safe_out py (?pre @ lit (''text-[var(--color-text'' @ '')]''))"
    "safe_out py (?pre @ lit (''text-[var(--color-text-secondary'' @ '')]''))"
    "safe_out py (?pre @ lit (''text-[var(--color-text-muted'' @ '')]''))"
    by (rule safe_out_var0 [OF pre], simp)+
  have b: "safe_out py (?pre @ lit ''text-[var(--color-'' @ get_semantic (c 2) @ lit '')]'')"
    by (rule safe_out_var [OF pre _ get_semantic_inertc]) simp
  from out a b show ?thesis
    by (auto simp: replace_text_def Let_def group_pos split: if_splits sum.splits)
qed

lemma bg_solid_safe:
  assumes m: "rx_match py bg_solid_rx Map.empty s = (c, s1) # rest"
    and out: "replace_bg_solid py \<lparr>group0 = g, groups = c\<rparr> = Inr out"
  shows "safe_out py out"
proof -
  let ?pre = "or_empty (c 1)"
  from m have "(c, s1) \<in> set (rx_match py bg_solid_rx Map.empty s)" by simp
  then have "(c, s1) \<in> set (rx_match py (Cat (prefix_rx [''hover:'', ''dark:'', ''active:'', ''focus:''])
      (cat [Lit (lit ''bg-''), Grp 2 colors_rx, Lit (lit ''-''), Grp 3 Digits1,
            NotAheadChr (Chr CHR ''/'')])) Map.empty s)"
    by (simp add: bg_solid_rx_def)
  then have "?pre \<in> insert [] (set (map lit [''hover:'', ''dark:'', ''active:'', ''focus:'']))"
    by (rule prefix_group) (simp add: colors_rx_def)
  then have pre: "\<forall>y\<in>set ?pre. inertc py y" by (rule prefix_inertc) simp
  have a: "safe_out py (?pre @ lit (''bg-[var(--color-bg'' @ '')]''))"
    "safe_out py (?pre @ lit (''bg-[var(--color-bg-secondary'' @ '')]''))"
    "safe_out py (?pre @ lit (''bg-[var(--color-bg-tertiary'' @ '')]''))"
    by (rule safe_out_var0 [OF pre], simp)+
  have b: "safe_out py (?pre @ lit ''bg-[var(--color-'' @ get_semantic (c 2) @ lit '')]'')"
    by (rule safe_out_var [OF pre _ get_semantic_inertc]) simp
  from out a b show ?thesis
    by (auto simp: replace_bg_solid_def Let_def group_pos split: if_splits sum.splits)
qed

lemma border_safe:
  assumes out: "replace_border py \<lparr>group0 = g, groups = c\<rparr> = Inr out"
  shows "safe_out py out"
proof -
  have pre: "\<forall>y\<in>set ([]::pystr). inertc py y" by simp
  have a: "safe_out py ([] @ lit (''border-[var(--color-border'' @ '')]''))"
    by (rule safe_out_var0 [OF pre]) simp
  have b: "safe_out py ([] @ lit ''border-[var(--color-'' @ get_semantic (c 1) @ lit '')]'')"
    by (rule safe_out_var [OF pre _ get_semantic_inertc]) simp
  from out a b show ?thesis
    by (auto simp: replace_border_def Let_def group_pos split: if_splits)
qed

lemma ring_safe:
  assumes m: "rx_match py ring_rx Map.empty s = (c, s1) # rest"
    and out: "replace_ring py \<lparr>group0 = g, groups = c\<rparr> = Inr out"
  shows "safe_out py out"
proof -
  let ?pre = "or_empty (c 1)"
  from m have "(c, s1) \<in> set (rx_match py ring_rx Map.empty s)" by simp
  then have "(c, s1) \<in> set (rx_match py (Cat (prefix_rx [''focus:''])
      (cat [Lit (lit ''ring-''), Grp 2 colors_rx, Lit (lit ''-''), Grp 3 Digits1])) Map.empty s)"
    by (simp add: ring_rx_def)
  then have "?pre \<in> insert [] (set (map lit [''focus:'']))"
    by (rule prefix_group) (simp add: colors_rx_def)
  then have pre: "\<forall>y\<in>set ?pre. inertc py y" by (rule prefix_inertc) simp
  have acc: "\<forall>y\<in>set (lit ''accent''). inertc py y" unfolding inertc_lit by simp
  have a: "safe_out py (?pre @ lit ''ring-[var(--color-'' @ lit ''accent'' @ lit '')]'')"
    by (rule safe_out_var [OF pre _ acc]) simp
  have b: "safe_out py (?pre @ lit ''ring-[var(--color-'' @ get_semantic (c 2) @ lit '')]'')"
    by (rule safe_out_var [OF pre _ get_semantic_inertc]) simp
  from out a b show ?thesis
    by (auto simp: replace_ring_def Let_def group_pos split: if_splits)
qed

section \<open>Idempotence of migrate_content\<close>

lemma py_sub_keeps_free:
  assumes "step_ok py r repl" "tame py r'" "py_sub py r repl s = Inr t" "free py r' s"
  shows "free py r' t"
proof -
  from assms(1) have tr: "tame py r"
    and pairs: "\<And>s c s1 rest out. rx_match py r Map.empty s = (c, s1) # rest \<Longrightarrow>
        repl \<lparr>group0 = take (length s - length s1) s, groups = c\<rparr> = Inr out \<Longrightarrow> safe_out py out"
    unfolding step_ok_def by blast+
  from assms(4) have d: "\<forall>n. hit py r' (drop n s) \<longrightarrow> hit py r (drop n s)"
    by (simp add: free_def)
  have p: "\<forall>q<length ([]::pystr). \<not> hit py r' (drop q [] @ s)" by simp
  from py_sub_free [OF tr assms(2) pairs assms(3) d p] show ?thesis by simp
qed

lemma py_sub_makes_free:
  assumes "step_ok py r repl" "py_sub py r repl s = Inr t"
  shows "free py r t"
proof -
  from assms(1) have tr: "tame py r"
    and pairs: "\<And>s c s1 rest out. rx_match py r Map.empty s = (c, s1) # rest \<Longrightarrow>
        repl \<lparr>group0 = take (length s - length s1) s, groups = c\<rparr> = Inr out \<Longrightarrow> safe_out py out"
    unfolding step_ok_def by blast+
  have d: "\<forall>n. hit py r (drop n s) \<longrightarrow> hit py r (drop n s)" by simp
  have p: "\<forall>q<length ([]::pystr). \<not> hit py r (drop q [] @ s)" by simp
  from py_sub_free [OF tr tr pairs assms(2) d p] show ?thesis by simp
qed

lemma py_sub_step:
  assumes "step_ok py r repl" "\<forall>r'\<in>R. tame py r'" "py_sub py r repl s = Inr t"
    "\<forall>r'\<in>R. free py r' s"
  shows "\<forall>r'\<in>insert r R. free py r' t"
proof
  fix r' assume "r' \<in> insert r R"
  then consider "r' = r" | "r' \<in> R" by blast
  then show "free py r' t"
  proof cases
    case 1
    with py_sub_makes_free [OF assms(1,3)] show ?thesis by simp
  next
    case 2
    with assms(2,4) have "tame py r'" "free py r' s" by blast+
    from py_sub_keeps_free [OF assms(1) this(1) assms(3) this(2)] show ?thesis .
  qed
qed

lemma stops_paren [simp]: "stops py (Chr CHR '')'')"
  by (simp add: stops_def)

lemma safe_out_hex:
  assumes "\<forall>c\<in>set kw. c \<notin> set ''0123456789/''"
  shows "safe_out py (lit (kw @ '')''))"
proof -
  have k: "\<forall>y\<in>set (lit kw). inertc py y" using assms by (simp only: inertc_lit)
  have "safe_out py (lit kw @ Chr CHR '')'' # [])"
    by (rule safe_outI [OF k]) simp_all
  then show ?thesis by (simp add: lit_def)
qed

lemma hex_map_new:
  assumes "(h, v) \<in> set hex_map"
  shows "safe_out py (lit v)" "lit v \<noteq> []" "hd (lit v) = Chr CHR ''v''" "Chr CHR ''#'' \<notin> set (lit v)"
proof -
  from assms consider "v = ''var(--color-border'' @ '')''" | "v = ''var(--color-text-muted'' @ '')''"
    | "v = ''var(--color-text-secondary'' @ '')''" | "v = ''var(--color-text'' @ '')''"
    by (auto simp: hex_map_def)
  then show "safe_out py (lit v)"
  proof cases
    case 1 show ?thesis unfolding 1 by (rule safe_out_hex) simp
  next
    case 2 show ?thesis unfolding 2 by (rule safe_out_hex) simp
  next
    case 3 show ?thesis unfolding 3 by (rule safe_out_hex) simp
  next
    case 4 show ?thesis unfolding 4 by (rule safe_out_hex) simp
  qed
  from assms show "lit v \<noteq> []" "hd (lit v) = Chr CHR ''v''" "Chr CHR ''#'' \<notin> set (lit v)"
    by (auto simp: hex_map_def lit_def)
qed

lemma hex_map_old:
  assumes "(h, v) \<in> set hex_map"
  shows "lit h \<noteq> []" "hd (lit h) = Chr CHR ''#''" "Chr CHR ''v'' \<notin> set (lit h)"
  using assms by (auto simp: hex_map_def lit_def)

lemma hex_step_free:
  assumes "tame py r'" "(h, v) \<in> set hex_map" "free py r' s"
  shows "free py r' (py_replace (lit h) (lit v) s)"
proof -
  have o: "lit h \<noteq> []" "hd (lit h) \<noteq> slash"
    using hex_map_old [OF assms(2)] by (simp_all add: slash_def)
  from assms(3) have f: "\<forall>n. \<not> hit py r' (drop n s)" by (simp add: free_def)
  have p: "\<forall>q<length ([]::pystr). \<not> hit py r' (drop q [] @ s)" by simp
  from py_replace_free [OF assms(1) hex_map_new(1) [OF assms(2)] o f p] show ?thesis by simp
qed

lemma hex_step_absent:
  assumes "(h, v) \<in> set hex_map" "(h', v') \<in> set hex_map" "h' \<noteq> h \<longrightarrow> absent (lit h') s"
  shows "absent (lit h') (py_replace (lit h) (lit v) s)"
proof -
  note n = hex_map_new [OF assms(1)] and o = hex_map_old [OF assms(1)]
    and o' = hex_map_old [OF assms(2)]
  have a: "hd (lit v) \<notin> set (lit h')" using n(3) o'(3) by simp
  have b: "hd (lit h') \<notin> set (lit v)" using n(4) o'(2) by simp
  have "lit h' = lit h \<longrightarrow> h' = h" by (simp add: lit_inject)
  with assms(3) have f: "lit h' \<noteq> lit h \<longrightarrow> (\<forall>n. \<not> prefix (lit h') (drop n s))"
    by (auto simp: absent_def)
  have p: "\<forall>q<length ([]::pystr). \<not> prefix (lit h') (drop q [] @ s)" by simp
  from py_replace_absent [OF o(1) o'(1) n(2) a b f p] show ?thesis by simp
qed

lemma hex_fold_Nil [simp]: "hex_fold [] s = s"
  by (simp add: hex_fold_def)

lemma hex_fold_Cons [simp]: "hex_fold ((h, v) # hm) s = hex_fold hm (py_replace (lit h) (lit v) s)"
  by (simp add: hex_fold_def)

lemma hex_fold_append: "hex_fold (xs @ ys) s = hex_fold ys (hex_fold xs s)"
  by (simp add: hex_fold_def)

lemma hex_fold_free:
  "tame py r' \<Longrightarrow> set hm \<subseteq> set hex_map \<Longrightarrow> free py r' s \<Longrightarrow> free py r' (hex_fold hm s)"
proof (induction hm arbitrary: s)
  case Nil then show ?case by simp
next
  case (Cons a hm)
  obtain h v where a: "a = (h, v)" by (cases a)
  with Cons.prems(2) have m: "(h, v) \<in> set hex_map" and sub: "set hm \<subseteq> set hex_map" by simp_all
  from hex_step_free [OF Cons.prems(1) m Cons.prems(3)]
  have "free py r' (py_replace (lit h) (lit v) s)" .
  from Cons.IH [OF Cons.prems(1) sub this] show ?case by (simp add: a)
qed

lemma hex_fold_keeps_absent:
  "(h', v') \<in> set hex_map \<Longrightarrow> set hm \<subseteq> set hex_map \<Longrightarrow> absent (lit h') s \<Longrightarrow>
     absent (lit h') (hex_fold hm s)"
proof (induction hm arbitrary: s)
  case Nil then show ?case by simp
next
  case (Cons a hm)
  obtain h v where a: "a = (h, v)" by (cases a)
  with Cons.prems(2) have m: "(h, v) \<in> set hex_map" and sub: "set hm \<subseteq> set hex_map" by simp_all
  from Cons.prems(3) have "h' \<noteq> h \<longrightarrow> absent (lit h') s" by simp
  from hex_step_absent [OF m Cons.prems(1) this]
  have "absent (lit h') (py_replace (lit h) (lit v) s)" .
  from Cons.IH [OF Cons.prems(1) sub this] show ?case by (simp add: a)
qed

lemma replace_hex_absent:
  assumes "(h, v) \<in> set hex_map"
  shows "absent (lit h) (replace_hex s)"
proof -
  from assms obtain ys zs where d: "hex_map = ys @ (h, v) # zs"
    by (auto simp: in_set_conv_decomp)
  have sub: "set zs \<subseteq> set hex_map" unfolding d by auto
  have "h \<noteq> h \<longrightarrow> absent (lit h) (hex_fold ys s)" by simp
  from hex_step_absent [OF assms assms this]
  have "absent (lit h) (py_replace (lit h) (lit v) (hex_fold ys s))" .
  from hex_fold_keeps_absent [OF assms sub this]
  have "absent (lit h) (hex_fold (ys @ (h, v) # zs) s)" by (simp add: hex_fold_append)
  then show ?thesis by (simp add: replace_hex_def hex_fold_def d)
qed

lemma replace_hex_free:
  "tame py r' \<Longrightarrow> free py r' s \<Longrightarrow> free py r' (replace_hex s)"
  using hex_fold_free [of py r' hex_map s] by (simp add: replace_hex_def hex_fold_def)

lemma hex_fold_id:
  "set hm \<subseteq> set hex_map \<Longrightarrow> (\<forall>(h, v)\<in>set hex_map. absent (lit h) t) \<Longrightarrow> hex_fold hm t = t"
proof (induction hm)
  case Nil then show ?case by simp
next
  case (Cons a hm)
  obtain h v where a: "a = (h, v)" by (cases a)
  with Cons.prems(1) have m: "(h, v) \<in> set hex_map" and sub: "set hm \<subseteq> set hex_map" by simp_all
  from m Cons.prems(2) have "absent (lit h) t" by blast
  from py_replace_id [OF hex_map_old(1) [OF m] this] have "py_replace (lit h) (lit v) t = t" .
  with Cons.IH [OF sub Cons.prems(2)] show ?case by (simp add: a)
qed

lemma replace_hex_id:
  "(\<forall>(h, v)\<in>set hex_map. absent (lit h) t) \<Longrightarrow> replace_hex t = t"
  using hex_fold_id [of hex_map t] by (simp add: replace_hex_def hex_fold_def)

lemma step_ok_bg_opacity: "repr_ok py \<Longrightarrow> step_ok py bg_opacity_rx (replace_bg_opacity py)"
  unfolding step_ok_def using tame_bg_opacity bg_opacity_safe by blast

lemma step_ok_border_opacity: "repr_ok py \<Longrightarrow> step_ok py border_opacity_rx (replace_border_opacity py)"
  unfolding step_ok_def using tame_border_opacity border_opacity_safe by blast

lemma step_ok_hover_bg_opacity:
  "repr_ok py \<Longrightarrow> step_ok py hover_bg_opacity_rx (replace_hover_bg_opacity py)"
  unfolding step_ok_def using tame_hover_bg_opacity hover_bg_opacity_safe by blast

lemma step_ok_text: "step_ok py text_rx (replace_text py)"
  unfolding step_ok_def using tame_text text_safe by blast

lemma step_ok_bg_solid: "step_ok py bg_solid_rx (replace_bg_solid py)"
  unfolding step_ok_def using tame_bg_solid bg_solid_safe by blast

lemma step_ok_border: "step_ok py border_rx (replace_border py)"
  unfolding step_ok_def using tame_border border_safe by blast

lemma step_ok_ring: "step_ok py ring_rx (replace_ring py)"
  unfolding step_ok_def using tame_ring ring_safe by blast

lemma tame_patterns: "\<forall>r\<in>patterns. tame py r"
  by (simp add: patterns_def tame_bg_opacity tame_border_opacity tame_hover_bg_opacity tame_text
      tame_bg_solid tame_border tame_ring)

lemma migrate_content_migrated:
  assumes ok: "repr_ok py" and res: "migrate_content py s = Inr t"
  shows "migrated py t"
proof -
  from res obtain s1 s2 s3 s4 s5 s6 s7 where
    p1: "py_sub py bg_opacity_rx (replace_bg_opacity py) s = Inr s1" and
    p2: "py_sub py border_opacity_rx (replace_border_opacity py) s1 = Inr s2" and
    p3: "py_sub py hover_bg_opacity_rx (replace_hover_bg_opacity py) s2 = Inr s3" and
    p4: "py_sub py text_rx (replace_text py) s3 = Inr s4" and
    p5: "py_sub py bg_solid_rx (replace_bg_solid py) s4 = Inr s5" and
    p6: "py_sub py border_rx (replace_border py) s5 = Inr s6" and
    p7: "py_sub py ring_rx (replace_ring py) s6 = Inr s7" and
    t: "t = replace_hex s7"
    unfolding migrate_content_def bind_Inr_iff by auto
  note tm = tame_patterns [of py, unfolded patterns_def]
  have f0: "\<forall>r'\<in>{}. free py r' s" by simp
  have f1: "\<forall>r'\<in>{bg_opacity_rx}. free py r' s1"
    by (rule py_sub_step [OF step_ok_bg_opacity [OF ok] _ p1 f0]) simp
  have f2: "\<forall>r'\<in>{border_opacity_rx, bg_opacity_rx}. free py r' s2"
    by (rule py_sub_step [OF step_ok_border_opacity [OF ok] _ p2 f1]) (use tm in simp)
  have f3: "\<forall>r'\<in>{hover_bg_opacity_rx, border_opacity_rx, bg_opacity_rx}. free py r' s3"
    by (rule py_sub_step [OF step_ok_hover_bg_opacity [OF ok] _ p3 f2]) (use tm in simp)
  have f4: "\<forall>r'\<in>{text_rx, hover_bg_opacity_rx, border_opacity_rx, bg_opacity_rx}. free py r' s4"
    by (rule py_sub_step [OF step_ok_text _ p4 f3]) (use tm in simp)
  have f5: "\<forall>r'\<in>{bg_solid_rx, text_rx, hover_bg_opacity_rx, border_opacity_rx, bg_opacity_rx}.
      free py r' s5"
    by (rule py_sub_step [OF step_ok_bg_solid _ p5 f4]) (use tm in simp)
  have f6: "\<forall>r'\<in>{border_rx, bg_solid_rx, text_rx, hover_bg_opacity_rx, border_opacity_rx,
      bg_opacity_rx}. free py r' s6"
    by (rule py_sub_step [OF step_ok_border _ p6 f5]) (use tm in simp)
  have f7: "\<forall>r'\<in>{ring_rx, border_rx, bg_solid_rx, text_rx, hover_bg_opacity_rx, border_opacity_rx,
      bg_opacity_rx}. free py r' s7"
    by (rule py_sub_step [OF step_ok_ring _ p7 f6]) (use tm in simp)
  have "\<forall>r\<in>patterns. free py r s7"
  proof
    fix r assume "r \<in> patterns"
    then have "r \<in> {ring_rx, border_rx, bg_solid_rx, text_rx, hover_bg_opacity_rx,
      border_opacity_rx, bg_opacity_rx}" unfolding patterns_def by blast
    with f7 show "free py r s7" by blast
  qed
  then have a: "\<forall>r\<in>patterns. free py r t"
    unfolding t using tame_patterns replace_hex_free by blast
  have b: "\<forall>(h, v)\<in>set hex_map. absent (lit h) t"
    unfolding t using replace_hex_absent by blast
  from a b show ?thesis unfolding migrated_def by blast
qed

lemma migrated_fixed:
  assumes "migrated py t"
  shows "migrate_content py t = Inr t"
proof -
  from assms have f: "\<And>r. r \<in> patterns \<Longrightarrow> free py r t"
    and h: "\<forall>(h, v)\<in>set hex_map. absent (lit h) t" unfolding migrated_def by blast+
  have i: "py_sub py bg_opacity_rx repl1 t = Inr t" "py_sub py border_opacity_rx repl2 t = Inr t"
    "py_sub py hover_bg_opacity_rx repl3 t = Inr t" "py_sub py text_rx repl4 t = Inr t"
    "py_sub py bg_solid_rx repl5 t = Inr t" "py_sub py border_rx repl6 t = Inr t"
    "py_sub py ring_rx repl7 t = Inr t" for repl1 repl2 repl3 repl4 repl5 repl6 repl7
    by (rule py_sub_id, rule f, simp add: patterns_def)+
  show ?thesis
    unfolding migrate_content_def by (simp add: i bind_def replace_hex_id [OF h])
qed

text \<open>
  Claim C9. \<open>migrate_content\<close> is idempotent on every text: a second run on the result
  of a run returns that result, and a run that raises, raises again. The runtime is any
  one whose text of a float is written with digits, the point, the exponent mark and signs.
\<close>

theorem migrate_content_idempotent:
  assumes "repr_ok py"
  shows "bind (migrate_content py s) (migrate_content py) = migrate_content py s"
proof (cases "migrate_content py s")
  case (Inl e)
  then show ?thesis by (simp add: bind_def)
next
  case (Inr t)
  from migrated_fixed [OF migrate_content_migrated [OF assms Inr]] Inr
  show ?thesis by (simp add: bind_def)
qed

section \<open>The fallback of the opacity helpers\<close>

text \<open>
  Claim C10. In \<open>replace_bg_opacity\<close>, \<open>replace_border_opacity\<close> and
  \<open>replace_hover_bg_opacity\<close> the branch that returns the match unchanged is never
  taken: every name of the alternation \<open>ALL_COLORS_PLUS_GRAY\<close> has a nonempty entry in
  \<open>COLOR_RGBA\<close>, and on every match of its pattern each helper returns the rgba form of
  the token, unless \<open>int\<close> or the division by 100 raises first.
\<close>

theorem opacity_fallback_unreachable:
  "(\<forall>color\<in>set ALL_COLORS_PLUS_GRAY. \<exists>rgba. dict_get COLOR_RGBA (Some (lit color)) = Some rgba \<and> rgba \<noteq> [])
   \<and> covered py bg_opacity_rx (replace_bg_opacity py) ''bg-[rgba(''
   \<and> covered py border_opacity_rx (replace_border_opacity py) ''border-[rgba(''
   \<and> covered py hover_bg_opacity_rx (replace_hover_bg_opacity py) ''hover:bg-[rgba(''"
proof -
  have e: "replace_bg_opacity py = opacity_rewrite py ''bg-[rgba(''"
    "replace_border_opacity py = opacity_rewrite py ''border-[rgba(''"
    "replace_hover_bg_opacity py = opacity_rewrite py ''hover:bg-[rgba(''"
    by (simp_all add: fun_eq_iff replace_bg_opacity_def replace_border_opacity_def
        replace_hover_bg_opacity_def opacity_rewrite_def)
  have one: "(1::nat) = Suc 0" by simp
  show ?thesis
    unfolding e
    by (intro conjI COLOR_RGBA_covers covered_opacity)
       (simp_all only: bg_opacity_rx_def border_opacity_rx_def hover_bg_opacity_rx_def one)
qed

lemma sample_match:
  "([1 \<mapsto> lit ''red'', 2 \<mapsto> lit ''500'', 3 \<mapsto> lit ''50''], [])
     \<in> set (rx_match example_python bg_opacity_rx Map.empty (lit ''bg-red-500/50''))"
  by (simp add: rx_match.simps bg_opacity_rx_def colors_rx_def ALL_COLORS_PLUS_GRAY_eq lit_def)

theorem opacity_fallback_unreachable_witness:
  "([1 \<mapsto> lit ''red'', 2 \<mapsto> lit ''500'', 3 \<mapsto> lit ''50''], [])
     \<in> set (rx_match example_python bg_opacity_rx Map.empty (lit ''bg-red-500/50'')) \<and>
   replace_bg_opacity example_python
     \<lparr>group0 = lit ''bg-red-500/50'',
      groups = [1 \<mapsto> lit ''red'', 2 \<mapsto> lit ''500'', 3 \<mapsto> lit ''50'']\<rparr>
     = Inr (lit ''bg-[rgba(239, 68, 68,0.5)]'')"
proof -
  let ?c = "[1 \<mapsto> lit ''red'', 2 \<mapsto> lit ''500'', 3 \<mapsto> lit ''50''] :: caps"
  let ?s = "lit ''bg-red-500/50''"
  from opacity_fallback_unreachable [of example_python] have "covered example_python bg_opacity_rx (replace_bg_opacity example_python) ''bg-[rgba(''"
    by blast
  with sample_match obtain rgba where
    r: "dict_get COLOR_RGBA (?c 1) = Some rgba"
    and e: "replace_bg_opacity example_python \<lparr>group0 = take (length ?s - length ([]::pystr)) ?s, groups = ?c\<rparr>
         = bind (py_int example_python (?c 3)) (\<lambda>n. bind (py_div100 example_python n) (\<lambda>opacity.
                 Inr (lit ''bg-[rgba('' @ rgba @ lit '','' @ opacity @ lit '')]'')))"
    unfolding covered_def by blast
  from r have rgba: "rgba = lit ''239, 68, 68''"
    by (simp add: dict_get_def COLOR_RGBA_def)
  have i: "py_int example_python (?c 3) = Inr 50"
    by (simp add: py_int_def example_python_def lit_def)
  have d: "py_div100 example_python 50 = Inr (lit ''0.5'')"
    by (simp add: py_div100_def example_python_def)
  from e have "replace_bg_opacity example_python \<lparr>group0 = ?s, groups = ?c\<rparr>
     = Inr (lit ''bg-[rgba(239, 68, 68,0.5)]'')"
    unfolding rgba i by (simp add: bind_def d lit_def)
  with sample_match show ?thesis by blast
qed

text \<open>A run of the model.\<close>

lemma repr_ok_example_python: "repr_ok example_python"
  by (simp add: repr_ok_def example_python_def)

lemma sample_step_1:
  "py_sub example_python bg_opacity_rx (replace_bg_opacity example_python)
     (lit ''hover:text-gray-900 bg-red-500/50 #374151'')
     = Inr (lit ''hover:text-gray-900 bg-[rgba(239, 68, 68,0.5)] #374151'')"
  by code_simp

lemma sample_step_2:
  "py_sub example_python border_opacity_rx (replace_border_opacity example_python)
     (lit ''hover:text-gray-900 bg-[rgba(239, 68, 68,0.5)] #374151'')
     = Inr (lit ''hover:text-gray-900 bg-[rgba(239, 68, 68,0.5)] #374151'')"
  by code_simp

lemma sample_step_3:
  "py_sub example_python hover_bg_opacity_rx (replace_hover_bg_opacity example_python)
     (lit ''hover:text-gray-900 bg-[rgba(239, 68, 68,0.5)] #374151'')
     = Inr (lit ''hover:text-gray-900 bg-[rgba(239, 68, 68,0.5)] #374151'')"
  by code_simp

lemma sample_step_4:
  "py_sub example_python text_rx (replace_text example_python)
     (lit ''hover:text-gray-900 bg-[rgba(239, 68, 68,0.5)] #374151'')
     = Inr (lit ''hover:text-[var(--color-text)] bg-[rgba(239, 68, 68,0.5)] #374151'')"
  by code_simp

lemma sample_step_5:
  "py_sub example_python bg_solid_rx (replace_bg_solid example_python)
     (lit ''hover:text-[var(--color-text)] bg-[rgba(239, 68, 68,0.5)] #374151'')
     = Inr (lit ''hover:text-[var(--color-text)] bg-[rgba(239, 68, 68,0.5)] #374151'')"
  by code_simp

lemma sample_step_6:
  "py_sub example_python border_rx (replace_border example_python)
     (lit ''hover:text-[var(--color-text)] bg-[rgba(239, 68, 68,0.5)] #374151'')
     = Inr (lit ''hover:text-[var(--color-text)] bg-[rgba(239, 68, 68,0.5)] #374151'')"
  by code_simp

lemma sample_step_7:
  "py_sub example_python ring_rx (replace_ring example_python)
     (lit ''hover:text-[var(--color-text)] bg-[rgba(239, 68, 68,0.5)] #374151'')
     = Inr (lit ''hover:text-[var(--color-text)] bg-[rgba(239, 68, 68,0.5)] #374151'')"
  by code_simp

lemma sample_step_8:
  "replace_hex (lit ''hover:text-[var(--color-text)] bg-[rgba(239, 68, 68,0.5)] #374151'')
     = lit ''hover:text-[var(--color-text)] bg-[rgba(239, 68, 68,0.5)] var(--color-text)''"
  by code_simp

lemma sample_run:
  "migrate_content example_python (lit ''hover:text-gray-900 bg-red-500/50 #374151'')
     = Inr (lit ''hover:text-[var(--color-text)] bg-[rgba(239, 68, 68,0.5)] var(--color-text)'')"
  unfolding migrate_content_def
  by (simp only: sample_step_1 sample_step_2 sample_step_3 sample_step_4 sample_step_5
      sample_step_6 sample_step_7 sample_step_8 bind_def sum.case)

theorem migrate_content_idempotent_witness:
  "bind (migrate_content example_python (lit ''hover:text-gray-900 bg-red-500/50 #374151''))
        (migrate_content example_python)
     = Inr (lit ''hover:text-[var(--color-text)] bg-[rgba(239, 68, 68,0.5)] var(--color-text)'')"
  using migrate_content_idempotent [OF repr_ok_example_python,
      of "lit ''hover:text-gray-900 bg-red-500/50 #374151''"]
  by (simp only: sample_run)

end
